theory Spec2Isabelle
  imports Complex_Main "HOL-Library.Word" "HOL-Library.Multiset"
begin

section \<open>JavaScript values\<close>

text \<open>
  A JavaScript string is a sequence of UTF-16 code units, and \<open>length\<close>, \<open>substring\<close> and
  \<open>trim\<close> count and cut in code units. JavaScript numbers are IEEE doubles; they are
  idealised here as exact reals (integers where the code only ever holds integers), so
  rounding error, overflow and the non-finite values are outside the model, with one
  exception: a division whose divisor is zero has no finite value in JavaScript, and
  \<open>js_div\<close> returns \<open>None\<close> for it instead of HOL's \<open>x / 0 = 0\<close>.
\<close>

type_synonym jschar = "16 word"
type_synonym jsstring = "jschar list"

definition str :: "string \<Rightarrow> jsstring" where
  "str cs = map (\<lambda>c. of_nat (of_char c)) cs"

text \<open>The code units \<open>String.prototype.trim\<close> removes: WhiteSpace and LineTerminator.\<close>

definition isWhiteSpace :: "jschar \<Rightarrow> bool" where
  "isWhiteSpace c \<longleftrightarrow>
     c \<in> {0x0009, 0x000A, 0x000B, 0x000C, 0x000D, 0x0020, 0x00A0, 0x1680,
          0x2028, 0x2029, 0x202F, 0x205F, 0x3000, 0xFEFF}
     \<or> (0x2000 \<le> c \<and> c \<le> 0x200A)"

definition trim :: "jsstring \<Rightarrow> jsstring" where
  "trim s = rev (dropWhile isWhiteSpace (rev (dropWhile isWhiteSpace s)))"

text \<open>
  \<open>String.prototype.substring(start, end)\<close>: both arguments are clamped to
  \<open>[0, length]\<close> and swapped when \<open>start > end\<close>.
\<close>

definition substring :: "jsstring \<Rightarrow> int \<Rightarrow> int \<Rightarrow> jsstring" where
  "substring s start end =
     (let len = int (length s);
          finalStart = min (max start 0) len;
          finalEnd = min (max end 0) len;
          from = min finalStart finalEnd;
          to = max finalStart finalEnd
      in take (nat (to - from)) (drop (nat from) s))"

fun js_includes :: "jsstring \<Rightarrow> jsstring \<Rightarrow> bool" where
  "js_includes [] searchString = (searchString = [])"
| "js_includes (c # cs) searchString =
     (take (length searchString) (c # cs) = searchString \<or> js_includes cs searchString)"

fun join :: "jsstring \<Rightarrow> jsstring list \<Rightarrow> jsstring" where
  "join separator [] = []"
| "join separator [x] = x"
| "join separator (x # y # ys) = x @ separator @ join separator (y # ys)"

text \<open>
  \<open>Array.prototype.slice(start, end)\<close>: a negative argument counts from the end of the
  array.
\<close>

definition js_slice :: "int \<Rightarrow> int \<Rightarrow> 'a list \<Rightarrow> 'a list" where
  "js_slice start end xs =
     (let len = int (length xs);
          k = (if start < 0 then max (len + start) 0 else min start len);
          final = (if end < 0 then max (len + end) 0 else min end len)
      in take (nat (final - k)) (drop (nat k) xs))"

text \<open>\<open>Math.round\<close> rounds to the nearest integer, a half towards plus infinity.\<close>

definition js_round :: "real \<Rightarrow> int" where
  "js_round x = \<lfloor>x + 1 / 2\<rfloor>"

definition js_div :: "real \<Rightarrow> real \<Rightarrow> real option" where
  "js_div x y = (if y = 0 then None else Some (x / y))"

definition js_sub :: "real option \<Rightarrow> real option \<Rightarrow> real option" where
  "js_sub x y = (case (x, y) of (Some a, Some b) \<Rightarrow> Some (a - b) | _ \<Rightarrow> None)"

text \<open>
  \<open>Array.prototype.sort(comparefn)\<close> is stable, and places \<open>x\<close> before \<open>y\<close> when
  \<open>comparefn(x, y) < 0\<close>; a comparator result that is not a number counts as \<open>0\<close>
  (SortCompare). A stable insertion sort stands for it: each element is put in front of
  the first later element that it does not have to follow.
\<close>

definition sortCompare :: "('a \<Rightarrow> 'a \<Rightarrow> real option) \<Rightarrow> 'a \<Rightarrow> 'a \<Rightarrow> real" where
  "sortCompare comparefn x y = (case comparefn x y of None \<Rightarrow> 0 | Some v \<Rightarrow> v)"

fun insert_sorted :: "('a \<Rightarrow> 'a \<Rightarrow> real option) \<Rightarrow> 'a \<Rightarrow> 'a list \<Rightarrow> 'a list" where
  "insert_sorted comparefn x [] = [x]"
| "insert_sorted comparefn x (y # ys) =
     (if sortCompare comparefn x y \<le> 0 then x # y # ys
      else y # insert_sorted comparefn x ys)"

definition js_sort :: "('a \<Rightarrow> 'a \<Rightarrow> real option) \<Rightarrow> 'a list \<Rightarrow> 'a list" where
  "js_sort comparefn xs = foldr (insert_sorted comparefn) xs []"


section \<open>types.ts and constants.ts\<close>

record DocumentChunk =
  id' :: int
  text' :: jsstring
  embedding :: "real list"

datatype AppState = INITIAL | PROCESSING | READY | ERROR

text \<open>
  The module constants, and \<open>API_BATCH_SIZE\<close> of App.tsx, are gathered in a record that the
  functions take as a parameter; \<open>constants\<close> holds the values the repository ships. The
  delay \<open>BATCH_DELAY_MS\<close> between two batches only passes time and has no counterpart.
\<close>

record config =
  CHUNK_SIZE :: int
  CHUNK_OVERLAP :: int
  API_BATCH_SIZE :: int

definition constants :: config where
  "constants = \<lparr>CHUNK_SIZE = 1000, CHUNK_OVERLAP = 200, API_BATCH_SIZE = 50\<rparr>"

definition EMBEDDING_MODEL_NAME :: jsstring where
  "EMBEDDING_MODEL_NAME = str ''embedding-001''"


section \<open>services/vectorDb.ts\<close>

text \<open>
  \<open>push\<close> and \<open>sort\<close> change an array in place, so arrays live in a store and are named
  by references. \<open>alloc\<close> is what an array literal, \<open>map\<close> or \<open>slice\<close> does: it makes a
  new array. The store holds the arrays of the two element types the class handles.
\<close>

record scored =
  chunk :: DocumentChunk
  similarity :: "real option"

type_synonym ref = nat

datatype array = Chunks "DocumentChunk list" | Scored "scored list"

type_synonym store = "array list"

definition alloc :: "array \<Rightarrow> store \<Rightarrow> ref \<times> store" where
  "alloc a s = (length s, s @ [a])"

definition chunk_array :: "store \<Rightarrow> ref \<Rightarrow> DocumentChunk list" where
  "chunk_array s r = (case s ! r of Chunks cs \<Rightarrow> cs | Scored _ \<Rightarrow> [])"

definition scored_array :: "store \<Rightarrow> ref \<Rightarrow> scored list" where
  "scored_array s r = (case s ! r of Scored xs \<Rightarrow> xs | Chunks _ \<Rightarrow> [])"

record InMemoryVectorDB =
  chunks :: ref

definition new_InMemoryVectorDB :: "store \<Rightarrow> InMemoryVectorDB \<times> store" where
  "new_InMemoryVectorDB s = (let (r, s') = alloc (Chunks []) s in (\<lparr>chunks = r\<rparr>, s'))"

definition add :: "InMemoryVectorDB \<Rightarrow> DocumentChunk list \<Rightarrow> store \<Rightarrow> store" where
  "add this newChunks s =
     s[chunks this := Chunks (chunk_array s (chunks this) @ newChunks)]"

text \<open>The loop of \<open>cosineSimilarity\<close>: the three running sums over the indices of \<open>vecA\<close>.\<close>

definition accumulate :: "real list \<Rightarrow> real list \<Rightarrow> real \<times> real \<times> real" where
  "accumulate vecA vecB =
     fold (\<lambda>i (dotProduct, magA, magB).
             (dotProduct + vecA ! i * vecB ! i,
              magA + vecA ! i * vecA ! i,
              magB + vecB ! i * vecB ! i))
          [0..<length vecA] (0, 0, 0)"

definition cosineSimilarity :: "real list \<Rightarrow> real list \<Rightarrow> real option" where
  "cosineSimilarity vecA vecB =
     (if length vecA \<noteq> length vecB then Some (- 1)
      else
        let (dotProduct, magA, magB) = accumulate vecA vecB;
            magA = sqrt magA;
            magB = sqrt magB
        in if magA = 0 \<or> magB = 0 then Some 0
           else js_div dotProduct (magA * magB))"

definition compareFn :: "scored \<Rightarrow> scored \<Rightarrow> real option" where
  "compareFn a b = js_sub (similarity b) (similarity a)"

definition search :: "InMemoryVectorDB \<Rightarrow> real list \<Rightarrow> int \<Rightarrow> store \<Rightarrow> ref \<times> store" where
  "search this queryEmbedding topK s =
     (if length (chunk_array s (chunks this)) = 0 then alloc (Chunks []) s
      else
        let (similarities, s1) =
              alloc (Scored (map (\<lambda>c. \<lparr>chunk = c,
                                        similarity = cosineSimilarity queryEmbedding (embedding c)\<rparr>)
                                 (chunk_array s (chunks this)))) s;
            s2 = s1[similarities := Scored (js_sort compareFn (scored_array s1 similarities))];
            (sliced, s3) = alloc (Scored (js_slice 0 topK (scored_array s2 similarities))) s2
        in alloc (Chunks (map chunk (scored_array s3 sliced))) s3)"

definition reset :: "InMemoryVectorDB \<Rightarrow> store \<Rightarrow> InMemoryVectorDB \<times> store" where
  "reset this s = (let (r, s') = alloc (Chunks []) s in (this\<lparr>chunks := r\<rparr>, s'))"

definition isReady :: "InMemoryVectorDB \<Rightarrow> store \<Rightarrow> bool" where
  "isReady this s \<longleftrightarrow> length (chunk_array s (chunks this)) > 0"

text \<open>The array a call of \<open>search\<close> returns, read from the store the call leaves.\<close>

definition search_result :: "InMemoryVectorDB \<Rightarrow> real list \<Rightarrow> int \<Rightarrow> store \<Rightarrow> DocumentChunk list" where
  "search_result this q k s = (let (r, s') = search this q k s in chunk_array s' r)"

text \<open>An index object is well formed in a store when its field refers to an array of chunks.\<close>

definition valid_db :: "InMemoryVectorDB \<Rightarrow> store \<Rightarrow> bool" where
  "valid_db this s \<longleftrightarrow>
     chunks this < length s \<and> (case s ! chunks this of Chunks _ \<Rightarrow> True | Scored _ \<Rightarrow> False)"


section \<open>services/geminiService.ts\<close>

text \<open>
  The embedding service is outside the program. It is a parameter: a function that
  gives, for the number of requests issued before and the request, what the call
  \<open>ai.models.embedContent\<close> does: it is rejected with an error that carries a message, or
  it resolves to a response whose \<open>embeddings\<close> field may be missing. The requests issued
  are logged, oldest first. A thrown \<open>Error\<close> is the left injection of its message.
\<close>

datatype taskType = RETRIEVAL_DOCUMENT | RETRIEVAL_QUERY

datatype contents = Single jsstring | Many "jsstring list"

record request =
  model :: jsstring
  contents :: contents
  taskType :: taskType

datatype response = Rejected jsstring | Resolved "real list list option"

type_synonym api = "nat \<Rightarrow> request \<Rightarrow> response"

definition handleError :: "jsstring \<Rightarrow> jsstring \<Rightarrow> jsstring" where
  "handleError message context =
     (if message \<noteq> [] \<and> js_includes message (str ''RESOURCE_EXHAUSTED'')
      then str ''API quota exceeded. The document is too large or requests are too frequent. Please wait and try again.''
      else str ''Failed to '' @ context @ str ''. Please check the console for details.'')"

definition embedContent :: "api \<Rightarrow> request \<Rightarrow> request list \<Rightarrow> response \<times> request list" where
  "embedContent ai req issued = (ai (length issued) req, issued @ [req])"

definition generateEmbedding ::
  "api \<Rightarrow> jsstring \<Rightarrow> taskType \<Rightarrow> request list \<Rightarrow> (jsstring + real list) \<times> request list" where
  "generateEmbedding ai txt tt issued =
     (let (response, issued') =
            embedContent ai \<lparr>model = EMBEDDING_MODEL_NAME, contents = Single txt, taskType = tt\<rparr> issued
      in case response of
           Rejected message \<Rightarrow> (Inl (handleError message (str ''generate single embedding'')), issued')
         | Resolved embeddings \<Rightarrow>
             (case embeddings of
                Some (e # _) \<Rightarrow> (Inr e, issued')
              | _ \<Rightarrow> (Inl (handleError (str ''Invalid embedding format received from API.'')
                                        (str ''generate single embedding'')), issued')))"

definition generateEmbeddings ::
  "api \<Rightarrow> jsstring list \<Rightarrow> taskType \<Rightarrow> request list \<Rightarrow> (jsstring + real list list) \<times> request list" where
  "generateEmbeddings ai texts tt issued =
     (let (response, issued') =
            embedContent ai \<lparr>model = EMBEDDING_MODEL_NAME, contents = Many texts, taskType = tt\<rparr> issued
      in case response of
           Rejected message \<Rightarrow> (Inl (handleError message (str ''generate batch embeddings'')), issued')
         | Resolved None \<Rightarrow>
             (Inl (handleError (str ''Cannot read properties of undefined (reading 'map')'')
                               (str ''generate batch embeddings'')), issued')
         | Resolved (Some embeddings) \<Rightarrow>
             (if length embeddings = length texts then (Inr embeddings, issued')
              else (Inl (handleError (str ''Mismatch between number of texts and embeddings received.'')
                                     (str ''generate batch embeddings'')), issued')))"


section \<open>App.tsx\<close>

text \<open>
  \<open>handleFileChange\<close> is modelled from the point where the selected file has passed the
  guards on its name and on the PDF library, which return before anything else happens.
  What PDF.js extracts is an input: opening the document fails, or gives pages, each of
  which fails or gives the strings of its text items. The values passed to
  \<open>setProgress\<close> are logged, oldest first; the message templates are a datatype. The local
  array \<open>allEmbeddedChunks\<close> is only ever written and is left out.

  The two loops whose step comes from the configuration need not terminate, so they
  are partial functions: \<open>None\<close> is a run that never returns.
\<close>

datatype message =
    NoMessage
  | ReadingPdf
  | ReadingPage int int
  | EmbeddingChunk int int
  | ProcessingComplete

record progress =
  percentage :: int
  message :: message

datatype page = PageError jsstring | Page "jsstring list"
datatype pdf = PdfError jsstring | Pdf "page list"

record pdfFile =
  name :: jsstring
  document :: pdf

record app =
  appState :: AppState
  progressLog :: "progress list"
  error :: "jsstring option"
  fileName :: jsstring
  vectorDB :: InMemoryVectorDB
  heap :: store
  requests :: "request list"

definition setProgress :: "progress \<Rightarrow> app \<Rightarrow> app" where
  "setProgress p st = st\<lparr>progressLog := progressLog st @ [p]\<rparr>"

fun readPages :: "int \<Rightarrow> int \<Rightarrow> page list \<Rightarrow> jsstring \<Rightarrow> app \<Rightarrow> (jsstring + jsstring) \<times> app" where
  "readPages numPages i [] fullText st = (Inr fullText, st)"
| "readPages numPages i (PageError m # ps) fullText st = (Inl m, st)"
| "readPages numPages i (Page items # ps) fullText st =
     readPages numPages (i + 1) ps (fullText @ join (str '' '') items @ [0x0A])
       (setProgress \<lparr>percentage = js_round (of_int i / of_int numPages * 15),
                     message = ReadingPage i numPages\<rparr> st)"

partial_function (option) rawChunks_loop ::
  "config \<Rightarrow> jsstring \<Rightarrow> int \<Rightarrow> jsstring list \<Rightarrow> jsstring list option" where
  "rawChunks_loop cfg fullText i rawChunks =
     (if i < int (length fullText)
      then rawChunks_loop cfg fullText (i + (CHUNK_SIZE cfg - CHUNK_OVERLAP cfg))
             (rawChunks @ [substring fullText i (i + CHUNK_SIZE cfg)])
      else Some rawChunks)"

definition rawChunks :: "config \<Rightarrow> jsstring \<Rightarrow> jsstring list option" where
  "rawChunks cfg fullText = rawChunks_loop cfg fullText 0 []"

definition filteredChunks :: "config \<Rightarrow> jsstring \<Rightarrow> jsstring list option" where
  "filteredChunks cfg fullText =
     map_option (filter (\<lambda>c. length (trim c) > 0)) (rawChunks cfg fullText)"

text \<open>
  One pass through the body of the embedding loop, for the batch that starts at \<open>i\<close>:
  the error thrown by \<open>generateEmbeddings\<close>, or the new \<open>processedCount\<close>.
\<close>

definition embedBatch ::
  "config \<Rightarrow> api \<Rightarrow> jsstring list \<Rightarrow> int \<Rightarrow> int \<Rightarrow> app \<Rightarrow> (jsstring + int) \<times> app" where
  "embedBatch cfg ai chunkTexts i processedCount st =
     (let batchChunksText = js_slice i (i + API_BATCH_SIZE cfg) chunkTexts;
          (batchEmbeddings, issued) =
             generateEmbeddings ai batchChunksText RETRIEVAL_DOCUMENT (requests st);
          st1 = st\<lparr>requests := issued\<rparr>
      in case batchEmbeddings of
           Inl err \<Rightarrow> (Inl err, st1)
         | Inr batchEmbeddings \<Rightarrow>
             let embeddedChunks =
                   map (\<lambda>(txt, index). \<lparr>id' = i + int index, text' = txt,
                                          embedding = batchEmbeddings ! index\<rparr>)
                       (zip batchChunksText [0..<length batchChunksText]);
                 st2 = st1\<lparr>heap := add (vectorDB st1) embeddedChunks (heap st1)\<rparr>;
                 processedCount = processedCount + int (length batchChunksText);
                 st3 = setProgress
                         \<lparr>percentage =
                            15 + js_round (of_int processedCount / of_int (int (length chunkTexts)) * 85),
                          message = EmbeddingChunk processedCount (int (length chunkTexts))\<rparr> st2
             in (Inr processedCount, st3))"

partial_function (option) embedLoop ::
  "config \<Rightarrow> api \<Rightarrow> jsstring list \<Rightarrow> int \<Rightarrow> int \<Rightarrow> app \<Rightarrow> ((jsstring + unit) \<times> app) option" where
  "embedLoop cfg ai chunkTexts i processedCount st =
     (if i < int (length chunkTexts) then
        case embedBatch cfg ai chunkTexts i processedCount st of
          (Inl err, st1) \<Rightarrow> Some (Inl err, st1)
        | (Inr processedCount, st3) \<Rightarrow>
            embedLoop cfg ai chunkTexts (i + API_BATCH_SIZE cfg) processedCount st3
      else Some (Inr (), st))"

definition tryBlock :: "config \<Rightarrow> api \<Rightarrow> pdfFile \<Rightarrow> app \<Rightarrow> ((jsstring + unit) \<times> app) option" where
  "tryBlock cfg ai f st =
     (let st1 = setProgress \<lparr>percentage = 0, message = ReadingPdf\<rparr> st
      in case document f of
           PdfError m \<Rightarrow> Some (Inl m, st1)
         | Pdf pages \<Rightarrow>
             (case readPages (int (length pages)) 1 pages [] st1 of
                (Inl m, st2) \<Rightarrow> Some (Inl m, st2)
              | (Inr fullText, st2) \<Rightarrow>
                  (case filteredChunks cfg fullText of
                     None \<Rightarrow> None
                   | Some chunkTexts \<Rightarrow>
                       (case embedLoop cfg ai chunkTexts 0 0 st2 of
                          None \<Rightarrow> None
                        | Some (Inl m, st3) \<Rightarrow> Some (Inl m, st3)
                        | Some (Inr _, st3) \<Rightarrow>
                            Some (Inr (),
                                  (setProgress \<lparr>percentage = 100, message = ProcessingComplete\<rparr> st3)
                                    \<lparr>appState := READY\<rparr>)))))"

definition handleFileChange :: "config \<Rightarrow> api \<Rightarrow> pdfFile \<Rightarrow> app \<Rightarrow> app option" where
  "handleFileChange cfg ai f st =
     (let (db, h) = reset (vectorDB st) (heap st);
          st0 = st\<lparr>error := None, fileName := name f, appState := PROCESSING,
                   vectorDB := db, heap := h\<rparr>
      in case tryBlock cfg ai f st0 of
           None \<Rightarrow> None
         | Some (Inl m, st') \<Rightarrow>
             Some (st'\<lparr>error := Some (str ''An error occurred: '' @ m), appState := ERROR\<rparr>)
         | Some (Inr _, st') \<Rightarrow> Some st')"

text \<open>
  Lines 190 to 192 of \<open>handleSendMessage\<close>: the question is embedded, the index is
  searched and the context of the answer is assembled. \<open>handleSendMessage\<close> reaches them
  when the input is not blank and no answer is being awaited; the generation of the
  answer from the context is outside the model.
\<close>

definition answerContext :: "api \<Rightarrow> jsstring \<Rightarrow> app \<Rightarrow> (jsstring + jsstring) \<times> app" where
  "answerContext ai input st =
     (case generateEmbedding ai input RETRIEVAL_QUERY (requests st) of
        (Inl err, issued) \<Rightarrow> (Inl err, st\<lparr>requests := issued\<rparr>)
      | (Inr queryEmbedding, issued) \<Rightarrow>
          let (contextChunks, h) = search (vectorDB st) queryEmbedding 5 (heap st);
              context = join [0x0A, 0x2D, 0x2D, 0x2D, 0x0A] (map text' (chunk_array h contextChunks))
          in (Inr context, st\<lparr>requests := issued, heap := h\<rparr>))"

datatype outcome = Ignored | Failed jsstring | Context jsstring

definition handleSendMessage :: "api \<Rightarrow> jsstring \<Rightarrow> bool \<Rightarrow> app \<Rightarrow> outcome \<times> app" where
  "handleSendMessage ai input isLoading st =
     (if length (trim input) = 0 \<or> isLoading then (Ignored, st)
      else case answerContext ai input st of
             (Inl err, st') \<Rightarrow> (Failed err, st')
           | (Inr context, st') \<Rightarrow> (Context context, st'))"

declare rawChunks_loop.simps [code]
declare embedLoop.simps [code]


section \<open>Notions used in the statements\<close>

text \<open>
  The similarity of a stored chunk to a query, as a real: \<open>cosineSimilarity\<close> always has a
  value (lemma \<open>cosineSimilarity_total\<close>). \<open>spec_ranking\<close> follows the specification's
  words: all segments sorted by similarity, descending, by a stable sort.
\<close>

definition similarityTo :: "real list \<Rightarrow> DocumentChunk \<Rightarrow> real" where
  "similarityTo q c = the (cosineSimilarity q (embedding c))"

definition spec_ranking :: "real list \<Rightarrow> DocumentChunk list \<Rightarrow> DocumentChunk list" where
  "spec_ranking q cs = sort_key (\<lambda>c. - similarityTo q c) cs"

definition score :: "real list \<Rightarrow> DocumentChunk \<Rightarrow> scored" where
  "score q c = \<lparr>chunk = c, similarity = cosineSimilarity q (embedding c)\<rparr>"

definition sort_key_of :: "scored \<Rightarrow> real" where
  "sort_key_of x = - the (similarity x)"

text \<open>
  Re-joining chunks with a known overlap, in the specification's words: the first chunk
  whole, each later chunk without its first \<open>overlap\<close> characters.
\<close>

definition spec_rejoin :: "nat \<Rightarrow> jsstring list \<Rightarrow> jsstring" where
  "spec_rejoin overlap cs =
     (case cs of [] \<Rightarrow> [] | c # rest \<Rightarrow> c @ concat (map (drop overlap) rest))"



text \<open>An index of three segments, for a query of two dimensions.\<close>

definition three_chunks :: "DocumentChunk list" where
  "three_chunks = [\<lparr>id' = 0, text' = str ''A'', embedding = [0, 1]\<rparr>,
                   \<lparr>id' = 1, text' = str ''B'', embedding = [1, 0]\<rparr>,
                   \<lparr>id' = 2, text' = str ''C'', embedding = [2, 0]\<rparr>]"




definition ready_app :: "DocumentChunk list \<Rightarrow> app" where
  "ready_app cs = \<lparr>appState = READY, progressLog = [], error = None, fileName = [],
                    vectorDB = \<lparr>chunks = 0\<rparr>, heap = [Chunks cs], requests = []\<rparr>"


text \<open>
  The segments the index of the application holds, the request \<open>generateEmbeddings\<close>
  sends for a batch of texts, the texts a request carries, and the message of the error
  that \<open>generateEmbeddings\<close> throws when the response is malformed.
\<close>

definition indexed :: "app \<Rightarrow> DocumentChunk list" where
  "indexed st = chunk_array (heap st) (chunks (vectorDB st))"

definition batch_request :: "jsstring list \<Rightarrow> request" where
  "batch_request texts =
     \<lparr>model = EMBEDDING_MODEL_NAME, contents = Many texts, taskType = RETRIEVAL_DOCUMENT\<rparr>"

definition request_texts :: "request \<Rightarrow> jsstring list" where
  "request_texts r = (case contents r of Many texts \<Rightarrow> texts | Single t \<Rightarrow> [t])"

definition embedding_failure :: jsstring where
  "embedding_failure = str ''Failed to generate batch embeddings. Please check the console for details.''"

text \<open>
  The embedding loop unrolled. For a positive batch size the loop visits the offsets
  \<open>i, i + API_BATCH_SIZE, ...\<close> below the number of chunks; \<open>runBatches\<close> runs the
  loop body over a list of offsets and stops at the first error. Lemma
  \<open>embedLoop_runBatches\<close> shows that this is what the loop does.
\<close>

fun offsetsFrom :: "int \<Rightarrow> int \<Rightarrow> nat \<Rightarrow> int list" where
  "offsetsFrom i b 0 = []"
| "offsetsFrom i b (Suc n) = i # offsetsFrom (i + b) b n"

definition batchCount :: "config \<Rightarrow> jsstring list \<Rightarrow> int \<Rightarrow> nat" where
  "batchCount cfg chunkTexts i =
     nat ((int (length chunkTexts) - i + API_BATCH_SIZE cfg - 1) div API_BATCH_SIZE cfg)"

definition batchOffsets :: "config \<Rightarrow> jsstring list \<Rightarrow> int \<Rightarrow> int list" where
  "batchOffsets cfg chunkTexts i = offsetsFrom i (API_BATCH_SIZE cfg) (batchCount cfg chunkTexts i)"

definition batchOf :: "config \<Rightarrow> jsstring list \<Rightarrow> int \<Rightarrow> jsstring list" where
  "batchOf cfg cs i = js_slice i (i + API_BATCH_SIZE cfg) cs"

fun runBatches ::
  "config \<Rightarrow> api \<Rightarrow> jsstring list \<Rightarrow> int list \<Rightarrow> int \<Rightarrow> app \<Rightarrow> (jsstring + unit) \<times> app" where
  "runBatches cfg ai chunkTexts [] processedCount st = (Inr (), st)"
| "runBatches cfg ai chunkTexts (i # rest) processedCount st =
     (case embedBatch cfg ai chunkTexts i processedCount st of
        (Inl err, st1) \<Rightarrow> (Inl err, st1)
      | (Inr processedCount, st3) \<Rightarrow> runBatches cfg ai chunkTexts rest processedCount st3)"

text \<open>
  What one pass of the loop body depends on: whether the response holds one vector for
  each text of the batch, the error thrown when it does not, the segments made of the
  batch, and the progress value set after it. \<open>committed\<close> counts the batches from the
  start of a list of offsets whose responses are all of the right size.
\<close>

definition well_sized :: "response \<Rightarrow> jsstring list \<Rightarrow> bool" where
  "well_sized r texts \<longleftrightarrow> (case r of Resolved (Some vs) \<Rightarrow> length vs = length texts | _ \<Rightarrow> False)"

definition batch_error :: "response \<Rightarrow> jsstring" where
  "batch_error r =
     (case r of Rejected msg \<Rightarrow> handleError msg (str ''generate batch embeddings'')
      | Resolved _ \<Rightarrow> embedding_failure)"

definition embedded :: "int \<Rightarrow> jsstring list \<Rightarrow> response \<Rightarrow> DocumentChunk list" where
  "embedded i texts r =
     (case r of Resolved (Some vs) \<Rightarrow>
        map (\<lambda>(txt, index). \<lparr>id' = i + int index, text' = txt, embedding = vs ! index\<rparr>)
            (zip texts [0..<length texts])
      | _ \<Rightarrow> [])"

definition batchProgress :: "jsstring list \<Rightarrow> int \<Rightarrow> progress" where
  "batchProgress cs pc =
     \<lparr>percentage = 15 + js_round (of_int pc / of_int (int (length cs)) * 85),
      message = EmbeddingChunk pc (int (length cs))\<rparr>"

fun committed :: "config \<Rightarrow> api \<Rightarrow> jsstring list \<Rightarrow> int list \<Rightarrow> nat \<Rightarrow> nat" where
  "committed cfg ai cs [] n = 0"
| "committed cfg ai cs (i # rest) n =
     (if well_sized (ai n (batch_request (batchOf cfg cs i))) (batchOf cfg cs i)
      then Suc (committed cfg ai cs rest (Suc n)) else 0)"

text \<open>
  The text the page loop builds (or the error of the first page that fails), the
  progress values it sets, and the states of the application along a run of
  \<open>handleFileChange\<close>: at the start of the \<open>try\<close> block, after the pages are read,
  after the \<open>catch\<close> block, and at the end of the \<open>try\<close> block.
\<close>

fun extractedText :: "page list \<Rightarrow> jsstring + jsstring" where
  "extractedText [] = Inr []"
| "extractedText (PageError m # ps) = Inl m"
| "extractedText (Page items # ps) =
     (case extractedText ps of
        Inl m \<Rightarrow> Inl m
      | Inr t \<Rightarrow> Inr (join (str '' '') items @ [0x0A] @ t))"

fun pageProgress :: "int \<Rightarrow> int \<Rightarrow> page list \<Rightarrow> progress list" where
  "pageProgress numPages i [] = []"
| "pageProgress numPages i (PageError m # ps) = []"
| "pageProgress numPages i (Page items # ps) =
     \<lparr>percentage = js_round (of_int i / of_int numPages * 15), message = ReadingPage i numPages\<rparr>
       # pageProgress numPages (i + 1) ps"

definition started :: "pdfFile \<Rightarrow> app \<Rightarrow> app" where
  "started f st =
     setProgress \<lparr>percentage = 0, message = ReadingPdf\<rparr>
       (st\<lparr>error := None, fileName := name f, appState := PROCESSING,
           vectorDB := (vectorDB st)\<lparr>chunks := length (heap st)\<rparr>,
           heap := heap st @ [Chunks []]\<rparr>)"

definition extracted :: "page list \<Rightarrow> app \<Rightarrow> app" where
  "extracted pages st =
     st\<lparr>progressLog := progressLog st @ pageProgress (int (length pages)) 1 pages\<rparr>"

definition failed :: "jsstring \<Rightarrow> app \<Rightarrow> app" where
  "failed m st = st\<lparr>error := Some (str ''An error occurred: '' @ m), appState := ERROR\<rparr>"

definition finished :: "app \<Rightarrow> app" where
  "finished st =
     (setProgress \<lparr>percentage = 100, message = ProcessingComplete\<rparr> st)\<lparr>appState := READY\<rparr>"

text \<open>
  Configurations, files and embedding services for concrete runs. \<open>echo_api\<close>
  answers every request with one vector for each text; \<open>short_api\<close> answers the second
  request with no vector at all.
\<close>

definition cfg3 :: config where
  "cfg3 = \<lparr>CHUNK_SIZE = 3, CHUNK_OVERLAP = 1, API_BATCH_SIZE = 2\<rparr>"

definition tiny :: config where
  "tiny = \<lparr>CHUNK_SIZE = 2, CHUNK_OVERLAP = 1, API_BATCH_SIZE = 1\<rparr>"


definition one_page_file :: pdfFile where
  "one_page_file = \<lparr>name = str ''a.pdf'', document = Pdf [Page [str ''ab'']]\<rparr>"


definition echo_api :: api where
  "echo_api n req = Resolved (Some (map (\<lambda>t. [1, 0]) (request_texts req)))"

definition short_api :: api where
  "short_api n req = (if n = 1 then Resolved (Some []) else echo_api n req)"


section \<open>Cosine similarity\<close>

text \<open>The loop computes the dot product and the two sums of squares.\<close>

lemma fold_accumulate:
  "fold (\<lambda>i (d, ma, mb). (d + f i, ma + g i, mb + h i)) [0..<n] (d0, a0, b0)
     = (d0 + (\<Sum>i<n. f i), a0 + (\<Sum>i<n. g i), b0 + (\<Sum>i<n. h i :: real))"
  by (induction n) (simp_all add: add.assoc)

lemma accumulate_sums:
  "accumulate a b = ((\<Sum>i<length a. a ! i * b ! i), (\<Sum>i<length a. a ! i * a ! i),
                     (\<Sum>i<length a. b ! i * b ! i))"
  unfolding accumulate_def by (simp add: fold_accumulate)

lemma sum_squares_nth: "(\<Sum>i<length a. a ! i * a ! i) = sum_list (map (\<lambda>x. x * x) (a :: real list))"
proof -
  have "sum_list (map (\<lambda>x. x * x) a) = (\<Sum>i = 0..<length a. map (\<lambda>x. x * x) a ! i)"
    by (simp add: sum_list_sum_nth)
  also have "\<dots> = (\<Sum>i = 0..<length a. a ! i * a ! i)"
    by (rule sum.cong) simp_all
  finally show ?thesis by (simp add: lessThan_atLeast0)
qed


lemma cosineSimilarity_total: "\<exists>v. cosineSimilarity a b = Some v"
  by (auto simp: cosineSimilarity_def js_div_def Let_def split: prod.splits)


lemma accumulate_sum_list:
  assumes "length a = length b"
  shows "accumulate a b = (sum_list (map2 (*) a b), sum_list (map (\<lambda>x. x * x) a),
                           sum_list (map (\<lambda>x. x * x) b))"
proof -
  have "(\<Sum>i<length a. b ! i * b ! i) = sum_list (map (\<lambda>x. x * x) b)"
    using sum_squares_nth [of b] assms by simp
  moreover have "(\<Sum>i<length a. a ! i * b ! i) = sum_list (map2 (*) a b)"
  proof -
    have "sum_list (map2 (*) a b) = (\<Sum>i = 0..<length (map2 (*) a b). map2 (*) a b ! i)"
      by (simp only: sum_list_sum_nth)
    also have "\<dots> = (\<Sum>i = 0..<length a. a ! i * b ! i)"
      using assms by (intro sum.cong) simp_all
    finally show ?thesis by (simp add: lessThan_atLeast0)
  qed
  ultimately show ?thesis by (simp add: accumulate_sums sum_squares_nth)
qed

text \<open>
  Claim C8. For vectors of equal length, when the magnitude of one of them (the square
  root of the sum of its squares) is exactly zero, \<open>cosineSimilarity\<close> returns exactly
  0: it has a value, which is 0, and the division is not reached.
\<close>

theorem cosineSimilarity_zero_magnitude:
  assumes "length a = length b"
    and "sqrt (sum_list (map (\<lambda>x. x * x) a)) = 0 \<or> sqrt (sum_list (map (\<lambda>x. x * x) b)) = 0"
  shows "cosineSimilarity a b = Some 0"
  using assms by (auto simp: cosineSimilarity_def accumulate_sum_list)

theorem cosineSimilarity_zero_magnitude_witness:
  "length [0, 0 :: real] = length [3, 4 :: real]
   \<and> (sqrt (sum_list (map (\<lambda>x. x * x) [0, 0 :: real])) = 0
      \<or> sqrt (sum_list (map (\<lambda>x. x * x) [3, 4 :: real])) = 0)
   \<and> cosineSimilarity [0, 0] [3, 4] = Some 0"
  using cosineSimilarity_zero_magnitude [of "[0, 0]" "[3, 4]"] by simp

section \<open>Sorting and searching\<close>

text \<open>
  On records whose similarity is a number the comparator of \<open>search\<close> orders by
  descending similarity, and the insertion sort is the stable sort by that key.
\<close>

lemma sortCompare_compareFn:
  "similarity x = Some u \<Longrightarrow> similarity y = Some v \<Longrightarrow>
     sortCompare compareFn x y \<le> 0 \<longleftrightarrow> sort_key_of x \<le> sort_key_of y"
  by (simp add: sortCompare_def compareFn_def js_sub_def sort_key_of_def)

lemma insert_sorted_insort_key:
  assumes "similarity x \<noteq> None" and "\<forall>y\<in>set ys. similarity y \<noteq> None"
  shows "insert_sorted compareFn x ys = insort_key sort_key_of x ys"
  using assms by (induction ys) (auto simp: sortCompare_compareFn)

lemma js_sort_sort_key:
  assumes "\<forall>x\<in>set xs. similarity x \<noteq> None"
  shows "js_sort compareFn xs = sort_key sort_key_of xs"
  using assms
proof (induction xs)
  case Nil
  show ?case by (simp add: js_sort_def)
next
  case (Cons x xs)
  then have IH: "js_sort compareFn xs = sort_key sort_key_of xs" by simp
  have "js_sort compareFn (x # xs) = insert_sorted compareFn x (js_sort compareFn xs)"
    by (simp add: js_sort_def)
  also have "\<dots> = insert_sorted compareFn x (sort_key sort_key_of xs)" by (simp only: IH)
  also have "\<dots> = insort_key sort_key_of x (sort_key sort_key_of xs)"
    using Cons.prems by (intro insert_sorted_insort_key) simp_all
  finally show ?case by simp
qed

lemma insort_key_map:
  "insort_key f (g x) (map g xs) = map g (insort_key (\<lambda>y. f (g y)) x xs)"
  by (induction xs) simp_all

lemma sort_key_map:
  "sort_key f (map g xs) = map g (sort_key (\<lambda>y. f (g y)) xs)"
  by (induction xs) (simp_all add: insort_key_map)

lemma ranked_scores:
  "map chunk (js_sort compareFn (map (score q) cs)) = spec_ranking q cs"
proof -
  have some: "\<forall>x\<in>set (map (score q) cs). similarity x \<noteq> None"
    using cosineSimilarity_total by (auto simp: score_def)
  have "js_sort compareFn (map (score q) cs) = sort_key sort_key_of (map (score q) cs)"
    by (rule js_sort_sort_key [OF some])
  also have "\<dots> = map (score q) (sort_key (\<lambda>c. sort_key_of (score q c)) cs)"
    by (rule sort_key_map)
  finally show ?thesis
    by (simp add: spec_ranking_def similarityTo_def sort_key_of_def score_def comp_def)
qed


lemma js_slice_map: "js_slice a b (map f xs) = map f (js_slice a b xs)"
  by (simp add: js_slice_def Let_def take_map drop_map)

lemma search_effect:
  "search this q k s =
           (length s + (if chunk_array s (chunks this) = [] then 0 else 2),
            s @ (if chunk_array s (chunks this) = [] then [Chunks []]
                 else [Scored (js_sort compareFn (map (score q) (chunk_array s (chunks this)))),
                       Scored (js_slice 0 k (js_sort compareFn (map (score q) (chunk_array s (chunks this))))),
                       Chunks (js_slice 0 k (spec_ranking q (chunk_array s (chunks this))))]))"
proof (cases "chunk_array s (chunks this) = []")
  case True
  then show ?thesis by (simp add: search_def alloc_def)
next
  case False
  have "map chunk (js_slice 0 k (js_sort compareFn (map (score q) (chunk_array s (chunks this)))))
        = js_slice 0 k (spec_ranking q (chunk_array s (chunks this)))"
    by (simp add: js_slice_map [symmetric] ranked_scores)
  with False show ?thesis
    by (simp add: search_def alloc_def scored_array_def nth_append score_def [abs_def])
qed

lemma search_result_eq:
  "search_result this q k s = js_slice 0 k (spec_ranking q (chunk_array s (chunks this)))"
  by (simp add: search_result_def search_effect chunk_array_def nth_append spec_ranking_def js_slice_def)

lemma search_preserves:
  "a < length s \<Longrightarrow> snd (search this q k s) ! a = s ! a"
  by (simp add: search_effect nth_append)
















lemma valid_db_after_search:
  "valid_db this s \<Longrightarrow> valid_db this (snd (search this q k s))"
  by (auto simp: valid_db_def search_effect nth_append)

lemma chunk_array_after_search:
  "valid_db this s \<Longrightarrow> chunk_array (snd (search this q k s)) (chunks this) = chunk_array s (chunks this)"
  by (simp add: valid_db_def chunk_array_def search_preserves)

text \<open>
  Claim C10. \<open>search\<close> sorts a new array: every array that was in the store, the one
  the index holds among them, is the same after the call, \<open>isReady\<close> answers the same,
  and the same search on the store the first one left returns the same segments. The
  index object itself is not returned changed, since \<open>search\<close> assigns no field.
\<close>

theorem search_frame:
  assumes "valid_db this s"
  shows "take (length s) (snd (search this q k s)) = s
         \<and> chunk_array (snd (search this q k s)) (chunks this) = chunk_array s (chunks this)
         \<and> isReady this (snd (search this q k s)) = isReady this s
         \<and> valid_db this (snd (search this q k s))
         \<and> search_result this q k (snd (search this q k s)) = search_result this q k s"
proof -
  have "take (length s) (snd (search this q k s)) = s"
    by (simp add: search_effect)
  moreover have same: "chunk_array (snd (search this q k s)) (chunks this) = chunk_array s (chunks this)"
    using assms by (rule chunk_array_after_search)
  moreover have "isReady this (snd (search this q k s)) = isReady this s"
    by (simp add: isReady_def same)
  moreover have "valid_db this (snd (search this q k s))"
    using assms by (rule valid_db_after_search)
  moreover have "search_result this q k (snd (search this q k s)) = search_result this q k s"
    by (simp only: search_result_eq same)
  ultimately show ?thesis by blast
qed

theorem search_frame_witness:
  "valid_db \<lparr>chunks = 0\<rparr> [Chunks three_chunks]
   \<and> take 1 (snd (search \<lparr>chunks = 0\<rparr> [1, 0] 2 [Chunks three_chunks])) = [Chunks three_chunks]
   \<and> isReady \<lparr>chunks = 0\<rparr> (snd (search \<lparr>chunks = 0\<rparr> [1, 0] 2 [Chunks three_chunks]))
   \<and> search_result \<lparr>chunks = 0\<rparr> [1, 0] 2 (snd (search \<lparr>chunks = 0\<rparr> [1, 0] 2 [Chunks three_chunks]))
       = search_result \<lparr>chunks = 0\<rparr> [1, 0] 2 [Chunks three_chunks]"
proof -
  have v: "valid_db \<lparr>chunks = 0\<rparr> [Chunks three_chunks]"
    by (simp add: valid_db_def)
  have r: "isReady \<lparr>chunks = 0\<rparr> [Chunks three_chunks]"
    by (simp add: isReady_def chunk_array_def three_chunks_def)
  from search_frame [OF v, of "[1, 0]" 2] v r show ?thesis by simp
qed

section \<open>The query pipeline\<close>


lemma ready_app_simps:
  "vectorDB (ready_app cs) = \<lparr>chunks = 0\<rparr>"
  "heap (ready_app cs) = [Chunks cs]"
  "requests (ready_app cs) = []"
  by (simp_all add: ready_app_def)





section \<open>Chunking\<close>

lemma take_min_length: "take (min a (length xs)) xs = take a xs"
  by (simp add: min_def)

lemma substring_chunk:
  assumes "0 \<le> i" and "0 < n"
  shows "substring T i (i + n) = take (nat n) (drop (nat i) T)"
proof (cases "i < int (length T)")
  case True
  have "substring T i (i + n)
        = take (nat (min (i + n) (int (length T)) - i)) (drop (nat i) T)"
    using True assms by (simp add: substring_def Let_def min_def max_def)
  also have "nat (min (i + n) (int (length T)) - i) = min (nat n) (length (drop (nat i) T))"
    using True assms by (simp add: min_def) linarith
  finally show ?thesis by (simp only: take_min_length)
next
  case False
  then have "drop (nat i) T = []" using assms by simp
  moreover have "i \<le> 0 \<Longrightarrow> T = []"
    using False by (cases T) auto
  then have "substring T i (i + n) = []"
    using False assms by (simp add: substring_def Let_def min_def max_def)
  ultimately show ?thesis by simp
qed

lemma rawChunks_loop_exit:
  "\<not> i < int (length T) \<Longrightarrow> rawChunks_loop cfg T i acc = Some acc"
  by (subst rawChunks_loop.simps) simp

lemma rawChunks_loop_step:
  "i < int (length T) \<Longrightarrow>
     rawChunks_loop cfg T i acc
       = rawChunks_loop cfg T (i + (CHUNK_SIZE cfg - CHUNK_OVERLAP cfg))
           (acc @ [substring T i (i + CHUNK_SIZE cfg)])"
  by (subst rawChunks_loop.simps) simp

text \<open>
  With a positive step the loop terminates, and the chunks it appends from offset \<open>i\<close>
  on, each without its first \<open>overlap\<close> characters, make up the text from
  \<open>i + overlap\<close> on.
\<close>

lemma rawChunks_loop_rejoin:
  assumes "CHUNK_OVERLAP cfg < CHUNK_SIZE cfg" and "0 \<le> CHUNK_OVERLAP cfg" and "0 \<le> i"
  shows "\<exists>cs. rawChunks_loop cfg T i acc = Some (acc @ cs)
              \<and> concat (map (drop (nat (CHUNK_OVERLAP cfg))) cs)
                  = drop (nat (i + CHUNK_OVERLAP cfg)) T"
  using assms(3)
proof (induction "nat (int (length T) - i)" arbitrary: i acc rule: less_induct)
  case less
  show ?case
  proof (cases "i < int (length T)")
    case False
    then have "rawChunks_loop cfg T i acc = Some (acc @ [])"
      by (simp add: rawChunks_loop_exit)
    moreover have "drop (nat (i + CHUNK_OVERLAP cfg)) T = []"
      using False assms(2) by simp
    ultimately show ?thesis by auto
  next
    case True
    let ?size = "CHUNK_SIZE cfg"
    let ?ov = "CHUNK_OVERLAP cfg"
    let ?i' = "i + (?size - ?ov)"
    let ?c = "substring T i (i + ?size)"
    have smaller: "nat (int (length T) - ?i') < nat (int (length T) - i)"
      using True assms(1) by simp
    have "0 \<le> ?i'" using less.prems assms(1) by simp
    from less.hyps [OF smaller this, of "acc @ [?c]"]
    obtain cs where cs: "rawChunks_loop cfg T ?i' (acc @ [?c]) = Some ((acc @ [?c]) @ cs)"
      and rest: "concat (map (drop (nat ?ov)) cs) = drop (nat (?i' + ?ov)) T"
      by blast
    have run: "rawChunks_loop cfg T i acc = Some (acc @ (?c # cs))"
      using True cs by (simp add: rawChunks_loop_step)
    have c: "?c = take (nat ?size) (drop (nat i) T)"
      using less.prems assms by (intro substring_chunk) simp_all
    have "drop (nat ?ov) ?c = take (nat ?size - nat ?ov) (drop (nat i + nat ?ov) T)"
      by (simp add: c drop_take add.commute)
    also have "nat i + nat ?ov = nat (i + ?ov)"
      using less.prems assms(2) by (simp add: nat_add_distrib)
    also have "nat ?size - nat ?ov = nat (?size - ?ov)"
      using assms by (simp add: nat_diff_distrib)
    finally have head: "drop (nat ?ov) ?c = take (nat (?size - ?ov)) (drop (nat (i + ?ov)) T)" .
    have "drop (nat (?i' + ?ov)) T = drop (nat (?size - ?ov)) (drop (nat (i + ?ov)) T)"
    proof -
      have "nat (?i' + ?ov) = nat (?size - ?ov) + nat (i + ?ov)"
        using less.prems assms by (simp add: nat_add_distrib [symmetric])
      then show ?thesis by (simp add: add.commute)
    qed
    with head rest have "concat (map (drop (nat ?ov)) (?c # cs))
        = take (nat (?size - ?ov)) (drop (nat (i + ?ov)) T)
          @ drop (nat (?size - ?ov)) (drop (nat (i + ?ov)) T)"
      by simp
    then have "concat (map (drop (nat ?ov)) (?c # cs)) = drop (nat (i + ?ov)) T"
      by (simp only: append_take_drop_id)
    with run show ?thesis by blast
  qed
qed

lemma spec_rejoin_rawChunks:
  assumes "CHUNK_OVERLAP cfg < CHUNK_SIZE cfg" and "0 \<le> CHUNK_OVERLAP cfg"
  shows "\<exists>raw. rawChunks cfg T = Some raw \<and> spec_rejoin (nat (CHUNK_OVERLAP cfg)) raw = T"
proof (cases "T = []")
  case True
  then have "rawChunks cfg T = Some []"
    by (simp add: rawChunks_def rawChunks_loop_exit)
  with True show ?thesis by (simp add: spec_rejoin_def)
next
  case False
  let ?size = "CHUNK_SIZE cfg"
  let ?ov = "CHUNK_OVERLAP cfg"
  let ?c = "substring T 0 (0 + ?size)"
  have pos: "0 < int (length T)" using False by simp
  have "0 \<le> 0 + (?size - ?ov)" using assms by simp
  from rawChunks_loop_rejoin [OF assms this, of T "[] @ [?c]"]
  obtain cs where cs: "rawChunks_loop cfg T (0 + (?size - ?ov)) ([] @ [?c]) = Some (([] @ [?c]) @ cs)"
    and rest: "concat (map (drop (nat ?ov)) cs) = drop (nat (0 + (?size - ?ov) + ?ov)) T"
    by blast
  have run: "rawChunks cfg T = Some (?c # cs)"
    unfolding rawChunks_def using rawChunks_loop_step [OF pos, of cfg "[]"] cs by simp
  have c: "?c = take (nat ?size) (drop (nat 0) T)"
    using assms by (intro substring_chunk) simp_all
  have "spec_rejoin (nat ?ov) (?c # cs) = take (nat ?size) T @ drop (nat ?size) T"
    using rest c by (simp add: spec_rejoin_def)
  then have "spec_rejoin (nat ?ov) (?c # cs) = T" by simp
  with run show ?thesis by blast
qed


lemma rawChunks_cfg3:
  "rawChunks cfg3 (str ''abcdefgh'') = Some [str ''abc'', str ''cde'', str ''efg'', str ''gh'']"
  by (simp add: rawChunks_def cfg3_def str_def rawChunks_loop.simps substring_def)



text \<open>
  Claim C3, as the code has it. For every text and every chunk size and overlap with
  \<open>size > overlap \<ge> 0\<close>, the chunking loop returns, and re-joining the chunks it
  produces (the first whole, each later one without its first \<open>overlap\<close> characters)
  gives the text back. The chunks kept by the filter are these chunks, and so re-join
  to the text, when none of them is empty after trimming.
\<close>

theorem rawChunks_rejoin:
  assumes "CHUNK_OVERLAP cfg < CHUNK_SIZE cfg" and "0 \<le> CHUNK_OVERLAP cfg"
  shows "\<exists>raw. rawChunks cfg T = Some raw
               \<and> spec_rejoin (nat (CHUNK_OVERLAP cfg)) raw = T
               \<and> (list_all (\<lambda>c. length (trim c) > 0) raw \<longrightarrow>
                    filteredChunks cfg T = Some raw
                    \<and> (\<exists>cs. filteredChunks cfg T = Some cs
                             \<and> spec_rejoin (nat (CHUNK_OVERLAP cfg)) cs = T))"
proof -
  from spec_rejoin_rawChunks [OF assms, of T]
  obtain raw where raw: "rawChunks cfg T = Some raw"
    and rejoin: "spec_rejoin (nat (CHUNK_OVERLAP cfg)) raw = T"
    by blast
  have "filteredChunks cfg T = Some raw" if "list_all (\<lambda>c. length (trim c) > 0) raw"
    using that raw by (simp add: filteredChunks_def list_all_iff)
  with raw rejoin show ?thesis by blast
qed

theorem rawChunks_rejoin_witness:
  "CHUNK_OVERLAP cfg3 < CHUNK_SIZE cfg3 \<and> 0 \<le> CHUNK_OVERLAP cfg3
   \<and> rawChunks cfg3 (str ''abcdefgh'') = Some [str ''abc'', str ''cde'', str ''efg'', str ''gh'']
   \<and> list_all (\<lambda>c. length (trim c) > 0) [str ''abc'', str ''cde'', str ''efg'', str ''gh'']
   \<and> filteredChunks cfg3 (str ''abcdefgh'') = Some [str ''abc'', str ''cde'', str ''efg'', str ''gh'']
   \<and> spec_rejoin (nat (CHUNK_OVERLAP cfg3)) [str ''abc'', str ''cde'', str ''efg'', str ''gh'']
       = str ''abcdefgh''"
proof -
  have a: "CHUNK_OVERLAP cfg3 < CHUNK_SIZE cfg3" and b: "0 \<le> CHUNK_OVERLAP cfg3"
    by (simp_all add: cfg3_def)
  have c: "list_all (\<lambda>c. length (trim c) > 0) [str ''abc'', str ''cde'', str ''efg'', str ''gh'']"
    by (simp add: trim_def str_def isWhiteSpace_def)
  from rawChunks_rejoin [OF a b, of "str ''abcdefgh''"] a b c show ?thesis
    by (auto simp: rawChunks_cfg3)
qed

text \<open>
  Claim C3 as stated fails for the chunks the chunker hands on, because the filter
  drops the chunks that are blank: with the shipped constants the text of one space
  has no chunk left, and re-joining nothing does not give the space back.
\<close>

theorem rawChunks_rejoin_counterexample:
  "CHUNK_OVERLAP constants < CHUNK_SIZE constants \<and> 0 \<le> CHUNK_OVERLAP constants
   \<and> filteredChunks constants [0x20] = Some []
   \<and> spec_rejoin (nat (CHUNK_OVERLAP constants)) [] \<noteq> [0x20]"
  by (simp add: filteredChunks_def rawChunks_def constants_def rawChunks_loop.simps substring_def
                trim_def isWhiteSpace_def spec_rejoin_def)

section \<open>The embedding loop\<close>

lemma batchCount_exit:
  assumes "0 < API_BATCH_SIZE cfg" and "\<not> i < int (length cs)"
  shows "batchCount cfg cs i = 0"
proof -
  let ?B = "API_BATCH_SIZE cfg"
  have "(int (length cs) - i + ?B - 1) div ?B \<le> (?B - 1) div ?B"
    using assms by (intro zdiv_mono1) simp_all
  also have "(?B - 1) div ?B = 0"
    using assms(1) by (simp add: div_pos_pos_trivial)
  finally show ?thesis by (simp add: batchCount_def)
qed

lemma batchCount_step:
  assumes "0 < API_BATCH_SIZE cfg" and "i < int (length cs)"
  shows "batchCount cfg cs i = Suc (batchCount cfg cs (i + API_BATCH_SIZE cfg))"
proof -
  let ?B = "API_BATCH_SIZE cfg"
  let ?x = "int (length cs) - i - 1"
  have nz: "?B \<noteq> 0" using assms(1) by simp
  have e: "int (length cs) - i + ?B - 1 = ?x + ?B" by simp
  have "(int (length cs) - i + ?B - 1) div ?B = (?x + ?B) div ?B" by (simp only: e)
  also have "\<dots> = ?x div ?B + 1" by (rule div_add_self2 [OF nz])
  finally have a: "(int (length cs) - i + ?B - 1) div ?B = ?x div ?B + 1" .
  have b: "int (length cs) - (i + ?B) + ?B - 1 = ?x" by simp
  have "0 \<le> ?x div ?B"
    using assms by (simp add: pos_imp_zdiv_nonneg_iff)
  with a b show ?thesis by (simp add: batchCount_def)
qed

lemma batchOffsets_exit:
  "0 < API_BATCH_SIZE cfg \<Longrightarrow> \<not> i < int (length cs) \<Longrightarrow> batchOffsets cfg cs i = []"
  by (simp add: batchOffsets_def batchCount_exit)

lemma batchOffsets_step:
  "0 < API_BATCH_SIZE cfg \<Longrightarrow> i < int (length cs) \<Longrightarrow>
     batchOffsets cfg cs i = i # batchOffsets cfg cs (i + API_BATCH_SIZE cfg)"
  by (simp add: batchOffsets_def batchCount_step)

lemma length_offsetsFrom: "length (offsetsFrom i b n) = n"
  by (induction n arbitrary: i) simp_all

lemma length_batchOffsets: "length (batchOffsets cfg cs i) = batchCount cfg cs i"
  by (simp add: batchOffsets_def length_offsetsFrom)

lemma embedLoop_runBatches:
  assumes "0 < API_BATCH_SIZE cfg"
  shows "embedLoop cfg ai cs i pc st = Some (runBatches cfg ai cs (batchOffsets cfg cs i) pc st)"
proof (induction "batchCount cfg cs i" arbitrary: i pc st)
  case 0
  then have "\<not> i < int (length cs)"
    using batchCount_step [OF assms, of i cs] by auto
  then show ?case
    using assms by (subst embedLoop.simps) (simp add: batchOffsets_exit)
next
  case (Suc n)
  then have less: "i < int (length cs)"
    using batchCount_exit [OF assms, of i cs] by auto
  then have n: "n = batchCount cfg cs (i + API_BATCH_SIZE cfg)"
    using Suc.hyps(2) batchCount_step [OF assms less] by simp
  show ?case
    using less assms Suc.hyps(1) [OF n]
    by (subst embedLoop.simps) (simp add: batchOffsets_step split: prod.splits sum.splits)
qed

lemma ceiling_div_int:
  fixes a b :: int
  assumes "0 < b"
  shows "- (- a div b) = (a + b - 1) div b"
proof -
  define q where "q = (a + b - 1) div b"
  define r where "r = (a + b - 1) mod b"
  have nz: "b \<noteq> 0" using assms by simp
  have r: "0 \<le> r" "r < b" using assms by (simp_all add: r_def)
  have "a + b - 1 = q * b + r" by (simp add: q_def r_def)
  then have "- a = (b - 1 - r) + (- q) * b" by (simp add: algebra_simps)
  then have "- a div b = ((b - 1 - r) + (- q) * b) div b" by simp
  also have "\<dots> = - q + (b - 1 - r) div b" by (rule div_mult_self1 [OF nz])
  also have "(b - 1 - r) div b = 0" using r by (simp add: div_pos_pos_trivial)
  finally show ?thesis by (simp add: q_def)
qed

lemma batchCount_ceiling:
  assumes "0 < API_BATCH_SIZE cfg"
  shows "int (batchCount cfg cs 0) = \<lceil>real (length cs) / real_of_int (API_BATCH_SIZE cfg)\<rceil>"
proof -
  let ?B = "API_BATCH_SIZE cfg"
  let ?N = "int (length cs)"
  have "\<lceil>real (length cs) / real_of_int ?B\<rceil> = \<lceil>real_of_int ?N / real_of_int ?B\<rceil>" by simp
  also have "\<dots> = - (- ?N div ?B)" by (rule ceiling_divide_eq_div)
  also have "\<dots> = (?N + ?B - 1) div ?B" by (rule ceiling_div_int [OF assms])
  finally have "\<lceil>real (length cs) / real_of_int ?B\<rceil> = (?N + ?B - 1) div ?B" .
  moreover have "0 \<le> (?N + ?B - 1) div ?B"
    using assms by (simp add: pos_imp_zdiv_nonneg_iff)
  ultimately show ?thesis by (simp add: batchCount_def)
qed

text \<open>
  The batches of a positive batch size: each is a slice of at most that many chunks, and
  together they are the chunks.
\<close>

lemma js_slice_batch:
  assumes "0 \<le> i" and "0 < b"
  shows "js_slice i (i + b) cs = take (nat b) (drop (nat i) cs)"
proof (cases "i < int (length cs)")
  case True
  have "js_slice i (i + b) cs = take (nat (min (i + b) (int (length cs)) - i)) (drop (nat i) cs)"
    using True assms by (simp add: js_slice_def Let_def min_def)
  also have "nat (min (i + b) (int (length cs)) - i) = min (nat b) (length (drop (nat i) cs))"
    using True assms by (simp add: min_def) linarith
  finally show ?thesis by (simp only: take_min_length)
next
  case False
  then have "drop (nat i) cs = []" using assms by simp
  moreover have "js_slice i (i + b) cs = []"
    using False assms by (simp add: js_slice_def Let_def min_def)
  ultimately show ?thesis by simp
qed

lemma batchOf_length:
  "0 \<le> i \<Longrightarrow> 0 < API_BATCH_SIZE cfg \<Longrightarrow> int (length (batchOf cfg cs i)) \<le> API_BATCH_SIZE cfg"
  by (simp add: batchOf_def js_slice_batch)

lemma batchOffsets_nonneg:
  assumes "0 < API_BATCH_SIZE cfg" and "0 \<le> i"
  shows "\<forall>x\<in>set (batchOffsets cfg cs i). 0 \<le> x"
  using assms(2)
proof (induction "batchCount cfg cs i" arbitrary: i)
  case 0
  then show ?case by (simp add: batchOffsets_def)
next
  case (Suc n)
  then have less: "i < int (length cs)"
    using batchCount_exit [OF assms(1), of i cs] by auto
  then have n: "n = batchCount cfg cs (i + API_BATCH_SIZE cfg)"
    using Suc.hyps(2) batchCount_step [OF assms(1) less] by simp
  have "0 \<le> i + API_BATCH_SIZE cfg" using Suc.prems assms(1) by simp
  from Suc.hyps(1) [OF n this] Suc.prems show ?case
    by (simp add: batchOffsets_step [OF assms(1) less])
qed

lemma concat_batches:
  assumes "0 < API_BATCH_SIZE cfg" and "0 \<le> i"
  shows "concat (map (batchOf cfg cs) (batchOffsets cfg cs i)) = drop (nat i) cs"
  using assms(2)
proof (induction "batchCount cfg cs i" arbitrary: i)
  case 0
  then have "\<not> i < int (length cs)"
    using batchCount_step [OF assms(1), of i cs] by auto
  then show ?case using assms(1) by (simp add: batchOffsets_exit)
next
  case (Suc n)
  let ?B = "API_BATCH_SIZE cfg"
  from Suc have less: "i < int (length cs)"
    using batchCount_exit [OF assms(1), of i cs] by auto
  then have n: "n = batchCount cfg cs (i + ?B)"
    using Suc.hyps(2) batchCount_step [OF assms(1) less] by simp
  have nn: "0 \<le> i + ?B" using Suc.prems assms(1) by simp
  have "concat (map (batchOf cfg cs) (batchOffsets cfg cs i))
        = batchOf cfg cs i @ drop (nat (i + ?B)) cs"
    using Suc.hyps(1) [OF n nn] by (simp add: batchOffsets_step [OF assms(1) less])
  also have "batchOf cfg cs i = take (nat ?B) (drop (nat i) cs)"
    using Suc.prems assms(1) by (simp add: batchOf_def js_slice_batch)
  also have "drop (nat (i + ?B)) cs = drop (nat ?B) (drop (nat i) cs)"
    using Suc.prems assms(1) by (simp add: nat_add_distrib add.commute)
  finally show ?case by (simp only: append_take_drop_id)
qed

text \<open>
  The loop body in closed form. Both errors that \<open>generateEmbeddings\<close> throws by itself
  pass through \<open>handleError\<close> and come out as the same message.
\<close>

lemma handleError_mismatch:
  "handleError (str ''Mismatch between number of texts and embeddings received.'')
               (str ''generate batch embeddings'') = embedding_failure"
  by (simp add: handleError_def embedding_failure_def str_def)

lemma handleError_undefined:
  "handleError (str ''Cannot read properties of undefined (reading 'map')'')
               (str ''generate batch embeddings'') = embedding_failure"
  by (simp add: handleError_def embedding_failure_def str_def)

lemma batch_error_resolved: "batch_error (Resolved e) = embedding_failure"
  by (simp add: batch_error_def)

lemma batch_request_fields:
  "contents (batch_request ts) = Many ts"
  "taskType (batch_request ts) = RETRIEVAL_DOCUMENT"
  "request_texts (batch_request ts) = ts"
  by (simp_all add: batch_request_def request_texts_def)

lemma generateEmbeddings_eq:
  "generateEmbeddings ai texts RETRIEVAL_DOCUMENT issued =
     (let r = ai (length issued) (batch_request texts)
      in (if well_sized r texts then Inr (case r of Resolved (Some vs) \<Rightarrow> vs | _ \<Rightarrow> [])
          else Inl (batch_error r),
          issued @ [batch_request texts]))"
  by (simp add: generateEmbeddings_def embedContent_def batch_request_def well_sized_def
                batch_error_def handleError_mismatch handleError_undefined Let_def
           split: response.splits option.splits)

lemma embedBatch_eq:
  "embedBatch cfg ai cs i pc st =
     (let texts = batchOf cfg cs i;
          r = ai (length (requests st)) (batch_request texts);
          st1 = st\<lparr>requests := requests st @ [batch_request texts]\<rparr>
      in if well_sized r texts
         then (Inr (pc + int (length texts)),
               setProgress (batchProgress cs (pc + int (length texts)))
                 (st1\<lparr>heap := add (vectorDB st) (embedded i texts r) (heap st)\<rparr>))
         else (Inl (batch_error r), st1))"
  by (auto simp: embedBatch_def generateEmbeddings_eq batchOf_def Let_def embedded_def
                 batchProgress_def well_sized_def
           split: response.splits option.splits)

lemma committed_le: "committed cfg ai cs offs n \<le> length offs"
  by (induction offs arbitrary: n) simp_all

lemma committed_well_sized:
  "j < committed cfg ai cs offs n \<Longrightarrow>
     well_sized (ai (n + j) (batch_request (batchOf cfg cs (offs ! j)))) (batchOf cfg cs (offs ! j))"
proof (induction offs arbitrary: n j)
  case Nil
  then show ?case by simp
next
  case (Cons i rest)
  show ?case
  proof (cases j)
    case 0
    with Cons.prems show ?thesis by (simp split: if_splits)
  next
    case (Suc j')
    with Cons.prems have "j' < committed cfg ai cs rest (Suc n)"
      by (simp split: if_splits)
    from Cons.IH [OF this] Suc show ?thesis by simp
  qed
qed

lemma committed_stops:
  "committed cfg ai cs offs n < length offs \<Longrightarrow>
     \<not> well_sized (ai (n + committed cfg ai cs offs n)
                      (batch_request (batchOf cfg cs (offs ! committed cfg ai cs offs n))))
                  (batchOf cfg cs (offs ! committed cfg ai cs offs n))"
proof (induction offs arbitrary: n)
  case Nil
  then show ?case by simp
next
  case (Cons i rest)
  show ?case
  proof (cases "well_sized (ai n (batch_request (batchOf cfg cs i))) (batchOf cfg cs i)")
    case False
    then show ?thesis by simp
  next
    case True
    with Cons.prems have "committed cfg ai cs rest (Suc n) < length rest" by simp
    from Cons.IH [OF this] True show ?thesis by simp
  qed
qed

text \<open>
  A run of the loop: its result, the requests it issues, the fields it leaves alone, the
  segments it adds and the progress values it sets.
\<close>

lemma runBatches_result:
  "fst (runBatches cfg ai cs offs pc st) =
     (let m = committed cfg ai cs offs (length (requests st))
      in if m = length offs then Inr ()
         else Inl (batch_error (ai (length (requests st) + m)
                                   (batch_request (batchOf cfg cs (offs ! m))))))"
proof (induction offs arbitrary: pc st)
  case Nil
  show ?case by simp
next
  case (Cons i rest)
  show ?case
    by (simp add: embedBatch_eq Let_def Cons.IH setProgress_def)
qed

lemma runBatches_requests:
  "requests (snd (runBatches cfg ai cs offs pc st)) =
     requests st @ map (\<lambda>i. batch_request (batchOf cfg cs i))
                     (take (Suc (committed cfg ai cs offs (length (requests st)))) offs)"
proof (induction offs arbitrary: pc st)
  case Nil
  show ?case by simp
next
  case (Cons i rest)
  show ?case
    by (simp add: embedBatch_eq Let_def Cons.IH setProgress_def)
qed

lemma runBatches_frame:
  "appState (snd (runBatches cfg ai cs offs pc st)) = appState st
   \<and> error (snd (runBatches cfg ai cs offs pc st)) = error st
   \<and> fileName (snd (runBatches cfg ai cs offs pc st)) = fileName st
   \<and> vectorDB (snd (runBatches cfg ai cs offs pc st)) = vectorDB st"
proof (induction offs arbitrary: pc st)
  case Nil
  show ?case by simp
next
  case (Cons i rest)
  show ?case
    by (simp add: embedBatch_eq Let_def Cons.IH setProgress_def)
qed

lemma valid_db_add: "valid_db db h \<Longrightarrow> valid_db db (add db new h)"
  by (simp add: valid_db_def add_def)

lemma chunk_array_add:
  "valid_db db h \<Longrightarrow> chunk_array (add db new h) (chunks db) = chunk_array h (chunks db) @ new"
  by (simp add: valid_db_def add_def chunk_array_def)

lemma text_embedded: "well_sized r texts \<Longrightarrow> map text' (embedded i texts r) = texts"
proof -
  have "map (text' \<circ> (\<lambda>(txt, index). \<lparr>id' = i + int index, text' = txt, embedding = vs ! index\<rparr>))
            (zip texts [0..<length texts]) = map fst (zip texts [0..<length texts])" for vs
    by (rule map_cong) auto
  then show "well_sized r texts \<Longrightarrow> map text' (embedded i texts r) = texts"
    by (auto simp: embedded_def well_sized_def split: response.splits option.splits)
qed

lemma runBatches_indexed:
  assumes "valid_db (vectorDB st) (heap st)"
  shows "valid_db (vectorDB (snd (runBatches cfg ai cs offs pc st)))
                  (heap (snd (runBatches cfg ai cs offs pc st)))
         \<and> map text' (indexed (snd (runBatches cfg ai cs offs pc st)))
             = map text' (indexed st)
               @ concat (map (batchOf cfg cs)
                             (take (committed cfg ai cs offs (length (requests st))) offs))"
  using assms
proof (induction offs arbitrary: pc st)
  case Nil
  then show ?case by simp
next
  case (Cons i rest)
  let ?texts = "batchOf cfg cs i"
  let ?r = "ai (length (requests st)) (batch_request ?texts)"
  show ?case
  proof (cases "well_sized ?r ?texts")
    case False
    with Cons.prems show ?thesis by (simp add: embedBatch_eq Let_def indexed_def)
  next
    case True
    let ?st3 = "setProgress (batchProgress cs (pc + int (length ?texts)))
                  (st\<lparr>requests := requests st @ [batch_request ?texts],
                      heap := add (vectorDB st) (embedded i ?texts ?r) (heap st)\<rparr>)"
    have v: "valid_db (vectorDB ?st3) (heap ?st3)"
      using Cons.prems by (simp add: setProgress_def valid_db_add)
    have idx: "map text' (indexed ?st3) = map text' (indexed st) @ ?texts"
      using Cons.prems True by (simp add: indexed_def setProgress_def chunk_array_add text_embedded)
    have len: "length (requests ?st3) = Suc (length (requests st))"
      by (simp add: setProgress_def)
    have step: "runBatches cfg ai cs (i # rest) pc st
                = runBatches cfg ai cs rest (pc + int (length ?texts)) ?st3"
      using True by (simp add: embedBatch_eq Let_def)
    from Cons.IH [OF v, of "pc + int (length ?texts)"] True show ?thesis
      by (simp only: step len idx) simp
  qed
qed

lemma js_round_mono: "x \<le> y \<Longrightarrow> js_round x \<le> js_round y"
  by (simp add: js_round_def floor_mono)

lemma js_round_nonneg: "0 \<le> x \<Longrightarrow> 0 \<le> js_round x"
  by (simp add: js_round_def)

lemma js_round_of_int: "js_round (of_int z) = z"
proof -
  have "\<lfloor>of_int z + (1 / 2 :: real)\<rfloor> = z" by linarith
  then show ?thesis by (simp add: js_round_def)
qed

lemma ratio_le_one: "0 \<le> a \<Longrightarrow> a \<le> b \<Longrightarrow> real_of_int a / real_of_int b \<le> 1"
  by (cases "b = 0") (simp_all add: divide_le_eq_1)

lemma batchProgress_mono:
  "pc \<le> pc' \<Longrightarrow> percentage (batchProgress cs pc) \<le> percentage (batchProgress cs pc')"
  by (simp add: batchProgress_def js_round_mono divide_right_mono mult_right_mono)

lemma runBatches_progress:
  "\<exists>ps. progressLog (snd (runBatches cfg ai cs offs pc st)) = progressLog st @ ps
        \<and> sorted (map percentage ps)
        \<and> (\<forall>p\<in>set ps.
              percentage (batchProgress cs pc) \<le> percentage p
              \<and> percentage p
                  \<le> percentage (batchProgress cs
                       (pc + int (length (concat (map (batchOf cfg cs) offs))))))"
proof (induction offs arbitrary: pc st)
  case Nil
  show ?case by simp
next
  case (Cons i rest)
  let ?texts = "batchOf cfg cs i"
  let ?r = "ai (length (requests st)) (batch_request ?texts)"
  show ?case
  proof (cases "well_sized ?r ?texts")
    case False
    then show ?thesis by (simp add: embedBatch_eq Let_def)
  next
    case True
    let ?pc1 = "pc + int (length ?texts)"
    let ?st3 = "setProgress (batchProgress cs ?pc1)
                  (st\<lparr>requests := requests st @ [batch_request ?texts],
                      heap := add (vectorDB st) (embedded i ?texts ?r) (heap st)\<rparr>)"
    have step: "runBatches cfg ai cs (i # rest) pc st = runBatches cfg ai cs rest ?pc1 ?st3"
      using True by (simp add: embedBatch_eq Let_def)
    from Cons.IH [of ?pc1 ?st3] obtain ps
      where ps: "progressLog (snd (runBatches cfg ai cs rest ?pc1 ?st3)) = progressLog ?st3 @ ps"
        and srt: "sorted (map percentage ps)"
        and bnd: "\<forall>p\<in>set ps. percentage (batchProgress cs ?pc1) \<le> percentage p
                   \<and> percentage p \<le> percentage (batchProgress cs
                        (?pc1 + int (length (concat (map (batchOf cfg cs) rest)))))"
      by blast
    let ?total = "pc + int (length (concat (map (batchOf cfg cs) (i # rest))))"
    have total: "?pc1 + int (length (concat (map (batchOf cfg cs) rest))) = ?total"
      by simp
    have lo: "percentage (batchProgress cs pc) \<le> percentage (batchProgress cs ?pc1)"
      by (rule batchProgress_mono) simp
    have hi: "percentage (batchProgress cs ?pc1) \<le> percentage (batchProgress cs ?total)"
      by (rule batchProgress_mono) simp
    have log: "progressLog (snd (runBatches cfg ai cs (i # rest) pc st))
               = progressLog st @ (batchProgress cs ?pc1 # ps)"
      by (simp only: step ps) (simp add: setProgress_def)
    have "sorted (map percentage (batchProgress cs ?pc1 # ps))"
      using srt bnd by simp
    moreover have "\<forall>p\<in>set (batchProgress cs ?pc1 # ps).
                     percentage (batchProgress cs pc) \<le> percentage p
                     \<and> percentage p \<le> percentage (batchProgress cs ?total)"
      using bnd lo hi unfolding total by auto
    ultimately show ?thesis using log by blast
  qed
qed

lemma batch_bounds:
  assumes "0 < API_BATCH_SIZE cfg"
  shows "\<exists>ps. progressLog (snd (runBatches cfg ai cs (batchOffsets cfg cs 0) 0 st)) = progressLog st @ ps
              \<and> sorted (map percentage ps)
              \<and> (\<forall>p\<in>set ps. 15 \<le> percentage p \<and> percentage p \<le> 100)"
proof -
  let ?offs = "batchOffsets cfg cs 0"
  from runBatches_progress [of cfg ai cs ?offs 0 st] obtain ps
    where ps: "progressLog (snd (runBatches cfg ai cs ?offs 0 st)) = progressLog st @ ps"
      and srt: "sorted (map percentage ps)"
      and bnd: "\<forall>p\<in>set ps. percentage (batchProgress cs 0) \<le> percentage p
                 \<and> percentage p \<le> percentage (batchProgress cs
                      (0 + int (length (concat (map (batchOf cfg cs) ?offs)))))"
    by blast
  have total: "0 + int (length (concat (map (batchOf cfg cs) ?offs))) = int (length cs)"
    by (simp add: concat_batches [OF assms])
  have lo: "percentage (batchProgress cs 0) = 15"
    using js_round_of_int [of 0] by (simp add: batchProgress_def)
  have "real_of_int (int (length cs)) / real_of_int (int (length cs)) * 85 \<le> of_int 85"
    using ratio_le_one [of "int (length cs)" "int (length cs)"] by simp
  then have "js_round (real_of_int (int (length cs)) / real_of_int (int (length cs)) * 85)
             \<le> js_round (of_int 85)"
    by (rule js_round_mono)
  then have "js_round (real_of_int (int (length cs)) / real_of_int (int (length cs)) * 85) \<le> 85"
    by (simp only: js_round_of_int)
  then have hi: "percentage (batchProgress cs (int (length cs))) \<le> 100"
    by (simp add: batchProgress_def)
  from bnd have "\<forall>p\<in>set ps. 15 \<le> percentage p \<and> percentage p \<le> 100"
    unfolding total lo using hi by fastforce
  with ps srt show ?thesis by blast
qed

section \<open>Ingestion\<close>

lemma readPages_eq:
  "readPages n i pages acc st =
     (case extractedText pages of Inl m \<Rightarrow> Inl m | Inr t \<Rightarrow> Inr (acc @ t),
      st\<lparr>progressLog := progressLog st @ pageProgress n i pages\<rparr>)"
proof (induction pages arbitrary: i acc st)
  case Nil
  show ?case by simp
next
  case (Cons p ps)
  show ?case
  proof (cases p)
    case (PageError m)
    then show ?thesis by simp
  next
    case (Page items)
    then show ?thesis
      by (simp add: Cons.IH setProgress_def split: sum.splits)
  qed
qed

lemma pageProgress_sorted:
  assumes "0 \<le> n"
  shows "sorted (map percentage (pageProgress n i pages))
         \<and> (\<forall>p\<in>set (pageProgress n i pages).
               js_round (of_int i / of_int n * 15) \<le> percentage p
               \<and> percentage p \<le> js_round (of_int (i + int (length pages) - 1) / of_int n * 15))"
proof (induction pages arbitrary: i)
  case Nil
  show ?case by simp
next
  case (Cons p ps)
  have mono: "js_round (of_int a / of_int n * 15) \<le> js_round (of_int b / of_int n * 15)"
    if "a \<le> b" for a b :: int
    using that assms by (intro js_round_mono mult_right_mono divide_right_mono) simp_all
  show ?case
  proof (cases p)
    case (PageError m)
    then show ?thesis by simp
  next
    case (Page items)
    have a: "js_round (of_int i / of_int n * 15) \<le> js_round (of_int (i + 1) / of_int n * 15)"
      by (rule mono) simp
    have b: "js_round (of_int i / of_int n * 15)
             \<le> js_round (of_int (i + int (length (p # ps)) - 1) / of_int n * 15)"
      by (rule mono) simp
    have c: "i + 1 + int (length ps) - 1 = i + int (length (p # ps)) - 1" by simp
    from Cons.IH [of "i + 1"] a b show ?thesis
      unfolding Page c [symmetric] by (auto simp del: of_int_add)
  qed
qed

lemma page_bounds:
  "\<forall>p\<in>set (pageProgress (int (length pages)) 1 pages). 0 \<le> percentage p \<and> percentage p \<le> 15"
proof -
  let ?n = "int (length pages)"
  have srt: "\<forall>p\<in>set (pageProgress ?n 1 pages).
          js_round (of_int 1 / of_int ?n * 15) \<le> percentage p
          \<and> percentage p \<le> js_round (of_int (1 + int (length pages) - 1) / of_int ?n * 15)"
    using pageProgress_sorted [of ?n 1 pages] by simp
  have lo: "0 \<le> js_round (of_int 1 / of_int ?n * 15)"
    by (rule js_round_nonneg) simp
  have "real_of_int (1 + int (length pages) - 1) / real_of_int ?n * 15 \<le> of_int 15"
    using ratio_le_one [of ?n ?n] by simp
  then have "js_round (of_int (1 + int (length pages) - 1) / of_int ?n * 15) \<le> js_round (of_int 15)"
    by (rule js_round_mono)
  then have hi: "js_round (of_int (1 + int (length pages) - 1) / of_int ?n * 15) \<le> 15"
    by (simp only: js_round_of_int)
  from srt lo hi show ?thesis by fastforce
qed

text \<open>
  \<open>handleFileChange\<close> for a positive batch size, by the way the run ends.
\<close>

lemma handleFileChange_eq:
  assumes "0 < API_BATCH_SIZE cfg"
  shows "handleFileChange cfg ai f st =
     (case document f of
        PdfError m \<Rightarrow> Some (failed m (started f st))
      | Pdf pages \<Rightarrow>
          (case extractedText pages of
             Inl m \<Rightarrow> Some (failed m (extracted pages (started f st)))
           | Inr fullText \<Rightarrow>
               (case filteredChunks cfg fullText of
                  None \<Rightarrow> None
                | Some cs \<Rightarrow>
                    (case runBatches cfg ai cs (batchOffsets cfg cs 0) 0
                            (extracted pages (started f st)) of
                       (Inl m, st3) \<Rightarrow> Some (failed m st3)
                     | (Inr _, st3) \<Rightarrow> Some (finished st3)))))"
  by (simp add: handleFileChange_def tryBlock_def reset_def alloc_def Let_def readPages_eq
                embedLoop_runBatches [OF assms] started_def extracted_def failed_def finished_def
           split: pdf.splits sum.splits option.splits prod.splits)

lemma started_fields:
  "requests (started f st) = requests st"
  "progressLog (started f st) = progressLog st @ [\<lparr>percentage = 0, message = ReadingPdf\<rparr>]"
  "valid_db (vectorDB (started f st)) (heap (started f st))"
  "indexed (started f st) = []"
  "appState (started f st) = PROCESSING"
  by (simp_all add: started_def setProgress_def valid_db_def indexed_def chunk_array_def)

lemma extracted_fields:
  "requests (extracted pages st) = requests st"
  "progressLog (extracted pages st) = progressLog st @ pageProgress (int (length pages)) 1 pages"
  "vectorDB (extracted pages st) = vectorDB st"
  "heap (extracted pages st) = heap st"
  "indexed (extracted pages st) = indexed st"
  "appState (extracted pages st) = appState st"
  by (simp_all add: extracted_def indexed_def)

lemma failed_fields:
  "requests (failed m st) = requests st"
  "progressLog (failed m st) = progressLog st"
  "vectorDB (failed m st) = vectorDB st"
  "heap (failed m st) = heap st"
  "indexed (failed m st) = indexed st"
  "appState (failed m st) = ERROR"
  "error (failed m st) = Some (str ''An error occurred: '' @ m)"
  by (simp_all add: failed_def indexed_def)

lemma finished_fields:
  "requests (finished st) = requests st"
  "progressLog (finished st) = progressLog st @ [\<lparr>percentage = 100, message = ProcessingComplete\<rparr>]"
  "vectorDB (finished st) = vectorDB st"
  "heap (finished st) = heap st"
  "indexed (finished st) = indexed st"
  "appState (finished st) = READY"
  by (simp_all add: finished_def indexed_def setProgress_def)

lemma handleFileChange_cases [consumes 2, case_names pdf_error page_error embed_error success]:
  assumes "0 < API_BATCH_SIZE cfg" and "handleFileChange cfg ai f st = Some st'"
  obtains
    (pdf_error) m where "document f = PdfError m" "st' = failed m (started f st)"
  | (page_error) pages m where "document f = Pdf pages" "extractedText pages = Inl m"
      "st' = failed m (extracted pages (started f st))"
  | (embed_error) pages fullText cs m st3 where "document f = Pdf pages"
      "extractedText pages = Inr fullText" "filteredChunks cfg fullText = Some cs"
      "runBatches cfg ai cs (batchOffsets cfg cs 0) 0 (extracted pages (started f st)) = (Inl m, st3)"
      "st' = failed m st3"
  | (success) pages fullText cs st3 where "document f = Pdf pages"
      "extractedText pages = Inr fullText" "filteredChunks cfg fullText = Some cs"
      "runBatches cfg ai cs (batchOffsets cfg cs 0) 0 (extracted pages (started f st)) = (Inr (), st3)"
      "st' = finished st3"
  using assms(2) unfolding handleFileChange_eq [OF assms(1)]
  by (auto split: pdf.splits sum.splits option.splits prod.splits)


lemma run_ready:
  assumes "0 < API_BATCH_SIZE cfg"
    and "document f = Pdf pages" and "extractedText pages = Inr fullText"
    and "filteredChunks cfg fullText = Some cs"
    and "fst (runBatches cfg ai cs (batchOffsets cfg cs 0) 0 (extracted pages (started f st))) = Inr ()"
  shows "\<exists>st'. handleFileChange cfg ai f st = Some st' \<and> appState st' = READY"
proof -
  obtain st3 where "runBatches cfg ai cs (batchOffsets cfg cs 0) 0 (extracted pages (started f st))
                    = (Inr (), st3)"
    using assms(5) by (cases "runBatches cfg ai cs (batchOffsets cfg cs 0) 0 (extracted pages (started f st))") auto
  then have "handleFileChange cfg ai f st = Some (finished st3)"
    unfolding handleFileChange_eq [OF assms(1)] using assms(2,3,4) by simp
  then show ?thesis by (simp add: finished_fields)
qed

lemma run_success:
  assumes "0 < API_BATCH_SIZE cfg"
    and "document f = Pdf pages" and "extractedText pages = Inr fullText"
    and "filteredChunks cfg fullText = Some cs"
    and "runBatches cfg ai cs (batchOffsets cfg cs 0) 0 (extracted pages (started f st)) = (Inr u, st3)"
  shows "handleFileChange cfg ai f st = Some (finished st3)"
  unfolding handleFileChange_eq [OF assms(1)] using assms(2,3,4,5) by simp

lemma run_requests:
  assumes "0 < API_BATCH_SIZE cfg"
    and "document f = Pdf pages" and "extractedText pages = Inr fullText"
    and "filteredChunks cfg fullText = Some cs"
  shows "\<exists>st'. handleFileChange cfg ai f st = Some st'
           \<and> requests st'
               = requests st
                 @ map (\<lambda>i. batch_request (batchOf cfg cs i))
                       (take (Suc (committed cfg ai cs (batchOffsets cfg cs 0) (length (requests st))))
                             (batchOffsets cfg cs 0))"
proof -
  let ?st2 = "extracted pages (started f st)"
  let ?run = "runBatches cfg ai cs (batchOffsets cfg cs 0) 0 ?st2"
  have n0: "length (requests ?st2) = length (requests st)" "requests ?st2 = requests st"
    by (simp_all add: extracted_fields started_fields)
  have reqs: "requests (snd ?run) = requests st
                 @ map (\<lambda>i. batch_request (batchOf cfg cs i))
                       (take (Suc (committed cfg ai cs (batchOffsets cfg cs 0) (length (requests st))))
                             (batchOffsets cfg cs 0))"
    unfolding runBatches_requests n0 ..
  obtain res st3 where run: "?run = (res, st3)" by (cases ?run)
  show ?thesis
  proof (cases res)
    case (Inl m)
    with run have "handleFileChange cfg ai f st = Some (failed m st3)"
      unfolding handleFileChange_eq [OF assms(1)] using assms(2,3,4) by simp
    with reqs run show ?thesis by (simp add: failed_fields)
  next
    case (Inr u)
    with run have "handleFileChange cfg ai f st = Some (finished st3)"
      unfolding handleFileChange_eq [OF assms(1)] using assms(2,3,4) by simp
    with reqs run show ?thesis by (simp add: finished_fields)
  qed
qed

text \<open>
  Concrete runs: a document of one page with the text \<open>ab\<close>, cut into chunks of two
  characters that overlap by one and embedded one chunk at a time.
\<close>

lemma ready_app_progressLog: "progressLog (ready_app cs) = []"
  by (simp add: ready_app_def)

lemma tiny_fields:
  "CHUNK_SIZE tiny = 2" "CHUNK_OVERLAP tiny = 1" "API_BATCH_SIZE tiny = 1"
  by (simp_all add: tiny_def)

lemma one_page_text: "extractedText [Page [str ''ab'']] = Inr (str ''ab'' @ [0x0A])"
  by simp

lemma tiny_rawChunks:
  "rawChunks tiny (str ''ab'' @ [0x0A]) = Some [str ''ab'', [0x62, 0x0A], [0x0A]]"
  by (simp add: rawChunks_def tiny_fields str_def rawChunks_loop.simps substring_def)

lemma tiny_filteredChunks:
  "filteredChunks tiny (str ''ab'' @ [0x0A]) = Some [str ''ab'', [0x62, 0x0A]]"
  unfolding filteredChunks_def tiny_rawChunks
  by (simp add: trim_def isWhiteSpace_def str_def)

lemma tiny_offsets: "batchOffsets tiny [str ''ab'', [0x62, 0x0A]] 0 = [0, 1]"
  by (simp add: batchOffsets_def batchCount_def tiny_fields numeral_2_eq_2)

lemma tiny_batches:
  "batchOf tiny [str ''ab'', [0x62, 0x0A]] 0 = [str ''ab'']"
  "batchOf tiny [str ''ab'', [0x62, 0x0A]] 1 = [[0x62, 0x0A]]"
  by (simp_all add: batchOf_def tiny_fields js_slice_def)

lemma echo_well_sized: "well_sized (echo_api n (batch_request ts)) ts"
  by (simp add: well_sized_def echo_api_def batch_request_fields)

lemma tiny_echo_run:
  "\<exists>st'. handleFileChange tiny echo_api one_page_file (ready_app []) = Some st'
         \<and> appState st' = READY"
proof (rule run_ready)
  show "0 < API_BATCH_SIZE tiny" by (simp add: tiny_fields)
  show "document one_page_file = Pdf [Page [str ''ab'']]" by (simp add: one_page_file_def)
  show "extractedText [Page [str ''ab'']] = Inr (str ''ab'' @ [0x0A])" by (rule one_page_text)
  show "filteredChunks tiny (str ''ab'' @ [0x0A]) = Some [str ''ab'', [0x62, 0x0A]]"
    by (rule tiny_filteredChunks)
  show "fst (runBatches tiny echo_api [str ''ab'', [0x62, 0x0A]]
               (batchOffsets tiny [str ''ab'', [0x62, 0x0A]] 0) 0
               (extracted [Page [str ''ab'']] (started one_page_file (ready_app [])))) = Inr ()"
    by (simp only: runBatches_result tiny_offsets) (simp add: Let_def echo_well_sized)
qed

lemma short_committed:
  "committed tiny short_api [str ''ab'', [0x62, 0x0A]] [0, 1] 0 = 1"
  by (simp add: tiny_batches short_api_def echo_api_def well_sized_def batch_request_fields)

lemma tiny_short_run:
  "\<exists>st'. handleFileChange tiny short_api one_page_file (ready_app []) = Some st'
         \<and> requests st' = [batch_request [str ''ab''], batch_request [[0x62, 0x0A]]]"
proof -
  have b: "0 < API_BATCH_SIZE tiny" by (simp add: tiny_fields)
  have d: "document one_page_file = Pdf [Page [str ''ab'']]" by (simp add: one_page_file_def)
  from run_requests [OF b d one_page_text tiny_filteredChunks, of short_api "ready_app []"]
  show ?thesis
    by (simp only: tiny_offsets ready_app_simps list.size short_committed)
       (simp add: tiny_batches)
qed

lemma tiny_echo_progress:
  "\<exists>st'. handleFileChange tiny echo_api one_page_file (ready_app []) = Some st'
         \<and> appState st' = READY
         \<and> map percentage (progressLog st') = [0, 15, 58, 100, 100]"
proof -
  have b: "0 < API_BATCH_SIZE tiny" by (simp add: tiny_fields)
  let ?st2 = "extracted [Page [str ''ab'']] (started one_page_file (ready_app []))"
  let ?run = "runBatches tiny echo_api [str ''ab'', [0x62, 0x0A]] [0, 1] 0 ?st2"
  have pg: "map percentage (progressLog ?st2) = [0, 15]"
    by (simp add: extracted_fields started_fields ready_app_def js_round_def)
  have "map percentage (progressLog (snd (runBatches tiny echo_api [str ''ab'', [0x62, 0x0A]] [0, 1] 0 st)))
        = map percentage (progressLog st) @ [58, 100]" for st
    by (simp add: embedBatch_eq Let_def echo_well_sized tiny_batches setProgress_def
                  batchProgress_def js_round_def)
  with pg have log: "map percentage (progressLog (snd ?run)) = [0, 15, 58, 100]" by simp
  have ok: "fst ?run = Inr ()"
    by (simp only: runBatches_result) (simp add: Let_def echo_well_sized)
  obtain st3 where run: "?run = (Inr (), st3)"
    using ok by (cases ?run) auto
  have d: "document one_page_file = Pdf [Page [str ''ab'']]" by (simp add: one_page_file_def)
  have "handleFileChange tiny echo_api one_page_file (ready_app []) = Some (finished st3)"
    by (rule run_success [OF b d one_page_text tiny_filteredChunks, unfolded tiny_offsets, OF run])
  moreover have "map percentage (progressLog (finished st3)) = [0, 15, 58, 100, 100]"
    using log run by (simp add: finished_fields)
  ultimately show ?thesis by (simp add: finished_fields)
qed

text \<open>
  Claim C4. For a batch size \<open>B > 0\<close>, an ingestion that ends in the state \<open>READY\<close> has
  read a document, has cut its text into raw chunks and kept the \<open>N\<close> chunks that are
  not empty after trimming; it has issued exactly \<open>ceil (N / B)\<close> embedding requests,
  each for at most \<open>B\<close> texts, and the index holds exactly \<open>N\<close> segments, one for each
  kept chunk, in order.
\<close>

theorem ingestion_batches:
  assumes "0 < API_BATCH_SIZE cfg"
    and "handleFileChange cfg ai f st = Some st'"
    and "appState st' = READY"
  shows "\<exists>pages fullText raw new.
           document f = Pdf pages \<and> extractedText pages = Inr fullText
           \<and> rawChunks cfg fullText = Some raw
           \<and> requests st' = requests st @ new
           \<and> int (length new)
               = \<lceil>real (length (filter (\<lambda>c. length (trim c) > 0) raw))
                    / real_of_int (API_BATCH_SIZE cfg)\<rceil>
           \<and> (\<forall>r\<in>set new. \<exists>ts. contents r = Many ts \<and> taskType r = RETRIEVAL_DOCUMENT
                               \<and> int (length ts) \<le> API_BATCH_SIZE cfg)
           \<and> map text' (indexed st') = filter (\<lambda>c. length (trim c) > 0) raw
           \<and> length (indexed st') = length (filter (\<lambda>c. length (trim c) > 0) raw)"
  using assms(1,2)
proof (cases rule: handleFileChange_cases)
  case (pdf_error m)
  with assms(3) show ?thesis by (simp add: failed_fields)
next
  case (page_error pages m)
  with assms(3) show ?thesis by (simp add: failed_fields)
next
  case (embed_error pages fullText cs m st3)
  with assms(3) show ?thesis by (simp add: failed_fields)
next
  case (success pages fullText cs st3)
  let ?st2 = "extracted pages (started f st)"
  let ?offs = "batchOffsets cfg cs 0"
  let ?new = "map (\<lambda>i. batch_request (batchOf cfg cs i)) ?offs"
  obtain raw where raw: "rawChunks cfg fullText = Some raw"
    and cs: "cs = filter (\<lambda>c. length (trim c) > 0) raw"
    using success(3) by (auto simp: filteredChunks_def)
  have st3: "st3 = snd (runBatches cfg ai cs ?offs 0 ?st2)"
    and ok: "fst (runBatches cfg ai cs ?offs 0 ?st2) = Inr ()"
    using success(4) by simp_all
  have m: "committed cfg ai cs ?offs (length (requests ?st2)) = length ?offs"
    using ok unfolding runBatches_result by (simp add: Let_def split: if_splits)
  have reqs: "requests st' = requests st @ ?new"
    unfolding success(5) finished_fields st3 runBatches_requests m
    by (simp add: extracted_fields started_fields)
  have count: "int (length ?new) = \<lceil>real (length cs) / real_of_int (API_BATCH_SIZE cfg)\<rceil>"
    by (simp add: length_batchOffsets batchCount_ceiling [OF assms(1)])
  have small: "\<forall>r\<in>set ?new. \<exists>ts. contents r = Many ts \<and> taskType r = RETRIEVAL_DOCUMENT
                               \<and> int (length ts) \<le> API_BATCH_SIZE cfg"
    using batchOffsets_nonneg [OF assms(1), of 0 cs]
    by (auto simp: batch_request_fields batchOf_length [OF _ assms(1)])
  have valid: "valid_db (vectorDB ?st2) (heap ?st2)"
    by (simp add: extracted_fields started_fields)
  have "map text' (indexed st3) = map text' (indexed ?st2) @ concat (map (batchOf cfg cs) ?offs)"
    unfolding st3 using runBatches_indexed [OF valid, of cfg ai cs ?offs 0] m by simp
  then have idx: "map text' (indexed st') = cs"
    unfolding success(5) finished_fields
    by (simp add: extracted_fields started_fields concat_batches [OF assms(1)])
  then have "length (indexed st') = length cs"
    by (metis length_map)
  with success(1,2) raw reqs count small idx show ?thesis
    unfolding cs by blast
qed

theorem ingestion_batches_witness:
  "0 < API_BATCH_SIZE tiny
   \<and> (\<exists>st'. handleFileChange tiny echo_api one_page_file (ready_app []) = Some st'
            \<and> appState st' = READY
            \<and> int (length (requests st')) = \<lceil>real 2 / real_of_int (API_BATCH_SIZE tiny)\<rceil>
            \<and> map text' (indexed st') = [str ''ab'', [0x62, 0x0A]]
            \<and> length (indexed st') = 2)"
proof -
  have b: "0 < API_BATCH_SIZE tiny" by (simp add: tiny_fields)
  from tiny_echo_run obtain st'
    where run: "handleFileChange tiny echo_api one_page_file (ready_app []) = Some st'"
      and ready: "appState st' = READY"
    by blast
  from ingestion_batches [OF b run ready] obtain pages fullText raw new
    where pages: "document one_page_file = Pdf pages"
      and fullText: "extractedText pages = Inr fullText"
      and raw: "rawChunks tiny fullText = Some raw"
      and reqs: "requests st' = requests (ready_app []) @ new"
      and count: "int (length new) = \<lceil>real (length (filter (\<lambda>c. length (trim c) > 0) raw))
                                 / real_of_int (API_BATCH_SIZE tiny)\<rceil>"
      and texts: "map text' (indexed st') = filter (\<lambda>c. length (trim c) > 0) raw"
      and size: "length (indexed st') = length (filter (\<lambda>c. length (trim c) > 0) raw)"
    by blast
  from pages have "pages = [Page [str ''ab'']]" by (simp add: one_page_file_def)
  with fullText have "fullText = str ''ab'' @ [0x0A]" by (simp only: one_page_text sum.inject)
  with raw have "raw = [str ''ab'', [0x62, 0x0A], [0x0A]]" by (simp only: tiny_rawChunks option.inject)
  moreover have "filter (\<lambda>c. length (trim c) > 0) [str ''ab'', [0x62, 0x0A], [0x0A]]
                 = [str ''ab'', [0x62, 0x0A]]"
    by (simp add: trim_def isWhiteSpace_def str_def)
  ultimately have kept: "filter (\<lambda>c. length (trim c) > 0) raw = [str ''ab'', [0x62, 0x0A]]"
    by simp
  have facts: "int (length (requests st')) = \<lceil>real 2 / real_of_int (API_BATCH_SIZE tiny)\<rceil>
      \<and> map text' (indexed st') = [str ''ab'', [0x62, 0x0A]] \<and> length (indexed st') = 2"
    using reqs count texts size unfolding kept by (simp add: ready_app_simps)
  show ?thesis
    by (rule conjI [OF b], rule exI [of _ st'], rule conjI [OF run], rule conjI [OF ready],
        rule facts)
qed

text \<open>
  Claim C5. When the response to a batch holds a number of vectors that differs from
  the number of texts of the batch, ingestion ends in the state \<open>ERROR\<close> with the
  message of the embedding failure; the request of that batch is the last one issued;
  the index holds the segments of the batches before it and no other, and it is still
  a well-formed index that \<open>search\<close> ranks.
\<close>

theorem mismatch_halts_ingestion:
  assumes "0 < API_BATCH_SIZE cfg"
    and "handleFileChange cfg ai f st = Some st'"
    and "requests st' = requests st @ new"
    and "j < length new"
    and "contents (new ! j) = Many ts"
    and "ai (length (requests st) + j) (new ! j) = Resolved (Some vs)"
    and "length vs \<noteq> length ts"
  shows "appState st' = ERROR
         \<and> error st' = Some (str ''An error occurred: '' @ embedding_failure)
         \<and> Suc j = length new
         \<and> map text' (indexed st') = concat (map request_texts (take j new))
         \<and> valid_db (vectorDB st') (heap st')
         \<and> search_result (vectorDB st') q k (heap st')
             = js_slice 0 k (spec_ranking q (indexed st'))"
  using assms(1,2)
proof (cases rule: handleFileChange_cases)
  case (pdf_error m)
  with assms(3,4) show ?thesis by (simp add: failed_fields started_fields)
next
  case (page_error pages m)
  with assms(3,4) show ?thesis by (simp add: failed_fields started_fields extracted_fields)
next
  case (embed_error pages fullText cs m st3)
  let ?st2 = "extracted pages (started f st)"
  let ?offs = "batchOffsets cfg cs 0"
  let ?m = "committed cfg ai cs ?offs (length (requests st))"
  let ?breq = "\<lambda>i. batch_request (batchOf cfg cs i)"
  have n0: "length (requests ?st2) = length (requests st)"
    by (simp add: extracted_fields started_fields)
  have st3: "st3 = snd (runBatches cfg ai cs ?offs 0 ?st2)"
    and res: "fst (runBatches cfg ai cs ?offs 0 ?st2) = Inl m"
    using embed_error(4) by simp_all
  have new: "new = map ?breq (take (Suc ?m) ?offs)"
    using assms(3) unfolding embed_error(5) failed_fields st3 runBatches_requests n0
    by (simp add: extracted_fields started_fields)
  have "?m \<noteq> length ?offs"
    using res unfolding runBatches_result n0 by (simp add: Let_def split: if_splits)
  with committed_le [of cfg ai cs ?offs "length (requests st)"]
  have stop: "?m < length ?offs" by simp
  have m: "m = batch_error (ai (length (requests st) + ?m) (?breq (?offs ! ?m)))"
    using res stop unfolding runBatches_result n0 by (simp add: Let_def)
  have len: "length new = Suc ?m"
    using stop by (simp add: new)
  have j: "j = ?m"
  proof (rule ccontr)
    assume "j \<noteq> ?m"
    with assms(4) len have less: "j < ?m" by simp
    then have nj: "new ! j = ?breq (?offs ! j)"
      using stop by (simp add: new)
    from committed_well_sized [OF less]
    have "well_sized (ai (length (requests st) + j) (?breq (?offs ! j))) (batchOf cfg cs (?offs ! j))" .
    with assms(5,6,7) show False
      by (simp add: nj well_sized_def batch_request_fields)
  qed
  have nm: "new ! ?m = ?breq (?offs ! ?m)"
    using stop by (simp add: new)
  have "m = embedding_failure"
    using assms(6) unfolding j nm m by (simp add: batch_error_resolved)
  then have err: "error st' = Some (str ''An error occurred: '' @ embedding_failure)"
    by (simp add: embed_error(5) failed_fields)
  have valid: "valid_db (vectorDB ?st2) (heap ?st2)"
    by (simp add: extracted_fields started_fields)
  note run = runBatches_indexed [OF valid, of cfg ai cs ?offs 0, folded st3, unfolded n0]
  have "take j new = map ?breq (take ?m ?offs)"
    unfolding j new by (simp add: take_map min_def)
  then have "concat (map request_texts (take j new)) = concat (map (batchOf cfg cs) (take ?m ?offs))"
    by (simp add: comp_def batch_request_fields)
  with run have idx: "map text' (indexed st') = concat (map request_texts (take j new))"
    by (simp add: embed_error(5) failed_fields extracted_fields started_fields)
  have v: "valid_db (vectorDB st') (heap st')"
    using run by (simp add: embed_error(5) failed_fields)
  have "search_result (vectorDB st') q k (heap st') = js_slice 0 k (spec_ranking q (indexed st'))"
    by (simp add: search_result_eq indexed_def)
  with err len j idx v show ?thesis
    by (simp add: embed_error(5) failed_fields)
next
  case (success pages fullText cs st3)
  let ?st2 = "extracted pages (started f st)"
  let ?offs = "batchOffsets cfg cs 0"
  let ?breq = "\<lambda>i. batch_request (batchOf cfg cs i)"
  have n0: "length (requests ?st2) = length (requests st)"
    by (simp add: extracted_fields started_fields)
  have st3: "st3 = snd (runBatches cfg ai cs ?offs 0 ?st2)"
    and ok: "fst (runBatches cfg ai cs ?offs 0 ?st2) = Inr ()"
    using success(4) by simp_all
  have m: "committed cfg ai cs ?offs (length (requests st)) = length ?offs"
    using ok unfolding runBatches_result n0 by (simp add: Let_def split: if_splits)
  have new: "new = map ?breq ?offs"
    using assms(3) unfolding success(5) finished_fields st3 runBatches_requests n0 m
    by (simp add: extracted_fields started_fields)
  have less: "j < committed cfg ai cs ?offs (length (requests st))"
    using assms(4) by (simp add: m new)
  have nj: "new ! j = ?breq (?offs ! j)"
    using assms(4) by (simp add: new)
  from committed_well_sized [OF less]
  have "well_sized (ai (length (requests st) + j) (?breq (?offs ! j))) (batchOf cfg cs (?offs ! j))" .
  with assms(5,6,7) have False
    by (simp add: nj well_sized_def batch_request_fields)
  then show ?thesis ..
qed

theorem mismatch_halts_ingestion_witness:
  "0 < API_BATCH_SIZE tiny
   \<and> (\<exists>st'. handleFileChange tiny short_api one_page_file (ready_app []) = Some st'
            \<and> requests st' = requests (ready_app [])
                               @ [batch_request [str ''ab''], batch_request [[0x62, 0x0A]]]
            \<and> (1 :: nat) < length [batch_request [str ''ab''], batch_request [[0x62, 0x0A]]]
            \<and> contents ([batch_request [str ''ab''], batch_request [[0x62, 0x0A]]] ! 1)
                = Many [[0x62, 0x0A]]
            \<and> short_api (length (requests (ready_app [])) + 1)
                         ([batch_request [str ''ab''], batch_request [[0x62, 0x0A]]] ! 1)
                = Resolved (Some [])
            \<and> length ([] :: real list list) \<noteq> length [[0x62, 0x0A :: jschar]]
            \<and> appState st' = ERROR
            \<and> error st' = Some (str ''An error occurred: '' @ embedding_failure)
            \<and> map text' (indexed st') = [str ''ab''])"
proof -
  let ?new = "[batch_request [str ''ab''], batch_request [[0x62, 0x0A]]]"
  have b: "0 < API_BATCH_SIZE tiny" by (simp add: tiny_fields)
  from tiny_short_run obtain st'
    where run: "handleFileChange tiny short_api one_page_file (ready_app []) = Some st'"
      and reqs: "requests st' = requests (ready_app []) @ ?new"
    by (auto simp: ready_app_simps)
  have j: "(1 :: nat) < length ?new" by simp
  have c: "contents (?new ! 1) = Many [[0x62, 0x0A]]" by (simp add: batch_request_fields)
  have r: "short_api (length (requests (ready_app [])) + 1) (?new ! 1) = Resolved (Some [])"
    by (simp add: short_api_def ready_app_simps)
  have l: "length ([] :: real list list) \<noteq> length [[0x62, 0x0A :: jschar]]" by simp
  from mismatch_halts_ingestion [OF b run reqs j c r l]
  have facts: "appState st' = ERROR
        \<and> error st' = Some (str ''An error occurred: '' @ embedding_failure)
        \<and> map text' (indexed st') = [str ''ab'']"
    by (simp add: batch_request_fields)
  show ?thesis
    by (rule conjI [OF b], rule exI [of _ st'], rule conjI [OF run], rule conjI [OF reqs],
        rule conjI [OF j], rule conjI [OF c], rule conjI [OF r], rule conjI [OF l], rule facts)
qed

text \<open>
  Claim C9. The percentages set in one run of ingestion, whether it ends in \<open>READY\<close> or
  in \<open>ERROR\<close>, never decrease: the run starts at 0, the page loop stays within 0 and
  15, the embedding loop within 15 and 100, and a run that ends in \<open>READY\<close> ends at
  100.
\<close>

theorem progress_monotone:
  assumes "0 < API_BATCH_SIZE cfg"
    and "handleFileChange cfg ai f st = Some st'"
  shows "\<exists>ps. progressLog st' = progressLog st @ ps
              \<and> sorted (map percentage ps)
              \<and> ps \<noteq> [] \<and> percentage (hd ps) = 0
              \<and> (\<forall>p\<in>set ps. 0 \<le> percentage p \<and> percentage p \<le> 100)
              \<and> (appState st' = READY \<longrightarrow> percentage (last ps) = 100)"
  using assms
proof (cases rule: handleFileChange_cases)
  case (pdf_error m)
  have "progressLog st' = progressLog st @ [\<lparr>percentage = 0, message = ReadingPdf\<rparr>]"
    by (simp add: pdf_error failed_fields started_fields)
  moreover have "appState st' \<noteq> READY" by (simp add: pdf_error failed_fields)
  ultimately show ?thesis by simp
next
  case (page_error pages m)
  let ?pg = "pageProgress (int (length pages)) 1 pages"
  have log: "progressLog st' = progressLog st @ (\<lparr>percentage = 0, message = ReadingPdf\<rparr> # ?pg)"
    by (simp add: page_error failed_fields extracted_fields started_fields)
  have "sorted (map percentage ?pg)"
    using pageProgress_sorted [of "int (length pages)" 1 pages] by simp
  then have "sorted (map percentage (\<lparr>percentage = 0, message = ReadingPdf\<rparr> # ?pg))"
    using page_bounds [of pages] by simp
  moreover have "\<forall>p\<in>set (\<lparr>percentage = 0, message = ReadingPdf\<rparr> # ?pg).
                   0 \<le> percentage p \<and> percentage p \<le> 100"
    using page_bounds [of pages] by fastforce
  moreover have "appState st' \<noteq> READY" by (simp add: page_error failed_fields)
  ultimately show ?thesis using log by auto
next
  case (embed_error pages fullText cs m st3)
  let ?pg = "pageProgress (int (length pages)) 1 pages"
  let ?st2 = "extracted pages (started f st)"
  from batch_bounds [OF assms(1), of ai cs ?st2] embed_error(4) obtain bps
    where bps: "progressLog st3 = progressLog ?st2 @ bps"
      and srt: "sorted (map percentage bps)"
      and bnd: "\<forall>p\<in>set bps. 15 \<le> percentage p \<and> percentage p \<le> 100"
    by auto
  let ?ps = "\<lparr>percentage = 0, message = ReadingPdf\<rparr> # ?pg @ bps"
  have log: "progressLog st' = progressLog st @ ?ps"
    by (simp add: embed_error(5) failed_fields bps extracted_fields started_fields)
  have pg: "sorted (map percentage ?pg)"
    using pageProgress_sorted [of "int (length pages)" 1 pages] by simp
  have "sorted (map percentage ?ps)"
    using pg srt bnd page_bounds [of pages] by (fastforce simp: sorted_append)
  moreover have "\<forall>p\<in>set ?ps. 0 \<le> percentage p \<and> percentage p \<le> 100"
    using bnd page_bounds [of pages] by fastforce
  moreover have "appState st' \<noteq> READY" by (simp add: embed_error(5) failed_fields)
  ultimately show ?thesis using log by auto
next
  case (success pages fullText cs st3)
  let ?pg = "pageProgress (int (length pages)) 1 pages"
  let ?st2 = "extracted pages (started f st)"
  from batch_bounds [OF assms(1), of ai cs ?st2] success(4) obtain bps
    where bps: "progressLog st3 = progressLog ?st2 @ bps"
      and srt: "sorted (map percentage bps)"
      and bnd: "\<forall>p\<in>set bps. 15 \<le> percentage p \<and> percentage p \<le> 100"
    by auto
  let ?ps = "\<lparr>percentage = 0, message = ReadingPdf\<rparr>
               # ?pg @ bps @ [\<lparr>percentage = 100, message = ProcessingComplete\<rparr>]"
  have log: "progressLog st' = progressLog st @ ?ps"
    by (simp add: success(5) finished_fields bps extracted_fields started_fields)
  have pg: "sorted (map percentage ?pg)"
    using pageProgress_sorted [of "int (length pages)" 1 pages] by simp
  have "sorted (map percentage ?ps)"
    using pg srt bnd page_bounds [of pages] by (fastforce simp: sorted_append)
  moreover have "\<forall>p\<in>set ?ps. 0 \<le> percentage p \<and> percentage p \<le> 100"
    using bnd page_bounds [of pages] by fastforce
  moreover have "percentage (last ?ps) = 100" by simp
  ultimately show ?thesis using log by auto
qed

theorem progress_monotone_witness:
  "0 < API_BATCH_SIZE tiny
   \<and> (\<exists>st'. handleFileChange tiny echo_api one_page_file (ready_app []) = Some st'
            \<and> appState st' = READY
            \<and> map percentage (progressLog st') = [0, 15, 58, 100, 100]
            \<and> sorted (map percentage (progressLog st'))
            \<and> percentage (last (progressLog st')) = 100)"
proof -
  have b: "0 < API_BATCH_SIZE tiny" by (simp add: tiny_fields)
  from tiny_echo_progress obtain st'
    where run: "handleFileChange tiny echo_api one_page_file (ready_app []) = Some st'"
      and ready: "appState st' = READY"
      and shown: "map percentage (progressLog st') = [0, 15, 58, 100, 100]"
    by (elim exE conjE)
  from progress_monotone [OF b run] obtain ps
    where ps: "progressLog st' = progressLog (ready_app []) @ ps"
      and srt: "sorted (map percentage ps)"
      and fin: "appState st' = READY \<longrightarrow> percentage (last ps) = 100"
    by (elim exE conjE)
  from ps have eq: "progressLog st' = ps" by (simp only: ready_app_progressLog append_Nil)
  from fin ready have "percentage (last ps) = 100" by (rule mp)
  with srt have facts: "sorted (map percentage (progressLog st'))
                        \<and> percentage (last (progressLog st')) = 100"
    unfolding eq by (rule conjI)
  show ?thesis
    by (rule conjI [OF b], rule exI [of _ st'], rule conjI [OF run], rule conjI [OF ready],
        rule conjI [OF shown], rule facts)
qed



end
